theory Spec2Isabelle
  imports Complex_Main "HOL-Library.Log_Nat"
begin

section \<open>Errors\<close>

text \<open>
  The exceptions the pipeline can raise.  \<open>Collaborator\<close> wraps whatever the record
  loader or the heart-rate estimator raises; \<open>Rendering\<close> wraps whatever the evaluation
  of the call \<open>self.get_image_array(beat)\<close> raises.
\<close>

datatype ('e, 'r) error =
  AssertionError | IndexError | OverflowError | ValueError | Collaborator 'e | Rendering 'r

text \<open>
  What a call of \<open>get_image_array\<close> can raise: \<open>TypeError\<close> when the arguments do not
  fit the parameters, or whatever the plotting libraries raise in the body.
\<close>

datatype 'e call_error = TypeError | Raised 'e

section \<open>Python slicing\<close>

text \<open>
  \<open>xs[start:stop]\<close> on a list or a one-dimensional array: a negative bound counts from
  the end, then each bound is clamped to \<open>0..len(xs)\<close>; the slice is empty when the
  lower bound is not below the upper one.  Slicing never raises.
\<close>

definition slice_bound :: "nat \<Rightarrow> int \<Rightarrow> nat" where
  "slice_bound n i = (if i < 0 then nat (max 0 (i + int n)) else min (nat i) n)"

definition py_slice :: "'a list \<Rightarrow> int \<Rightarrow> int \<Rightarrow> 'a list" where
  "py_slice xs start stop =
     (let lo = slice_bound (length xs) start;
          hi = slice_bound (length xs) stop
      in take (hi - lo) (drop lo xs))"

section \<open>Iteration that an exception ends\<close>

text \<open>
  A statement is a function from the state to the new state and the exception raised, if
  any: the state survives the exception.  \<open>for x in xs\<close> runs the body on each element
  and stops at the first exception; \<open>for i, x in enumerate(xs)\<close> also counts.
\<close>

fun for_each :: "('x \<Rightarrow> 's \<Rightarrow> 's \<times> 'err option) \<Rightarrow> 'x list \<Rightarrow> 's \<Rightarrow> 's \<times> 'err option" where
  "for_each body [] s = (s, None)"
| "for_each body (x # xs) s =
     (case body x s of
        (s', Some e) \<Rightarrow> (s', Some e)
      | (s', None) \<Rightarrow> for_each body xs s')"

fun for_enumerate ::
  "(nat \<Rightarrow> 'x \<Rightarrow> 's \<Rightarrow> 's \<times> 'err option) \<Rightarrow> nat \<Rightarrow> 'x list \<Rightarrow> 's \<Rightarrow> 's \<times> 'err option" where
  "for_enumerate body i [] s = (s, None)"
| "for_enumerate body i (x # xs) s =
     (case body i x s of
        (s', Some e) \<Rightarrow> (s', Some e)
      | (s', None) \<Rightarrow> for_enumerate body (Suc i) xs s')"

text \<open>A list comprehension \<open>[f(x) for x in xs]\<close> whose \<open>f\<close> may raise.\<close>

fun comprehension :: "('x \<Rightarrow> 'err + 'y) \<Rightarrow> 'x list \<Rightarrow> 'err + 'y list" where
  "comprehension f [] = Inr []"
| "comprehension f (x # xs) =
     (case f x of
        Inl e \<Rightarrow> Inl e
      | Inr y \<Rightarrow> (case comprehension f xs of Inl e \<Rightarrow> Inl e | Inr ys \<Rightarrow> Inr (y # ys)))"

section \<open>Binary floating point\<close>

text \<open>
  A binary format: the precision in bits and the least exponent of a normal number
  (53 and -1022 for a double, 24 and -126 for a single).  \<open>fl f x\<close> is \<open>x\<close> rounded to
  the nearest number of the format, ties to even: \<open>expo\<close> finds the exponent \<open>e\<close> with
  \<open>2^e \<le> x < 2^(e+1)\<close>, below \<open>emin\<close> the spacing stays that of \<open>emin\<close> (gradual
  underflow), and \<open>rne\<close> rounds to the nearest integer, ties to even.  Overflow to
  infinity is not modelled: the products and quotients of this program are smaller than
  the mean rate they start from.
\<close>

record format =
  prec :: nat
  emin :: int

definition binary64 :: format where
  "binary64 = \<lparr>prec = 53, emin = - 1022\<rparr>"

definition binary32 :: format where
  "binary32 = \<lparr>prec = 24, emin = - 126\<rparr>"

definition pow2 :: "int \<Rightarrow> real" where
  "pow2 k = (if 0 \<le> k then 2 ^ nat k else 1 / 2 ^ nat (- k))"

definition expo :: "real \<Rightarrow> int" where
  "expo x = (if 1 \<le> x then bitlen \<lfloor>x\<rfloor> - 1 else - bitlen (\<lceil>1 / x\<rceil> - 1))"

definition rne :: "real \<Rightarrow> int" where
  "rne y = (let f = \<lfloor>y\<rfloor>; d = y - of_int f
            in if d < 1 / 2 then f
               else if 1 / 2 < d then f + 1
               else if even f then f else f + 1)"

definition fl :: "format \<Rightarrow> real \<Rightarrow> real" where
  "fl f x = (if x = 0 then 0
             else let e = max (expo \<bar>x\<bar>) (emin f);
                      u = pow2 (e - int (prec f) + 1)
                  in sgn x * of_int (rne (\<bar>x\<bar> / u)) * u)"

text \<open>
  The arithmetic on the mean rate is in double or in single precision, according to the
  type of the mean that the estimator returns and to the promotion rules of the NumPy at
  hand.  A rounding \<open>rnd\<close> is accurate when it keeps the sign, has relative error at
  most \<open>2^-24\<close> between \<open>2^-126\<close> and \<open>2^127\<close>, and takes nothing below \<open>2^-126\<close>
  above it: rounding to nearest in either format is.
\<close>

definition accurate :: "(real \<Rightarrow> real) \<Rightarrow> bool" where
  "accurate rnd =
     ((\<forall>x. 0 \<le> x \<longrightarrow> 0 \<le> rnd x)
      \<and> (\<forall>x. pow2 (- 126) \<le> \<bar>x\<bar> \<and> \<bar>x\<bar> \<le> pow2 127 \<longrightarrow> \<bar>rnd x - x\<bar> \<le> \<bar>x\<bar> / 2 ^ 24)
      \<and> (\<forall>x. \<bar>x\<bar> \<le> pow2 (- 126) \<longrightarrow> \<bar>rnd x\<bar> \<le> pow2 (- 126)))"

section \<open>The frame half-width\<close>

text \<open>
  \<open>frame = int((mean_rate * scale_factor) / 2)\<close> with \<open>scale_factor = 0.786\<close>.
  The literal is a double; the product and the quotient are rounded by \<open>rnd\<close>, which
  also converts the literal to the precision of the mean.  Python's \<open>int\<close> truncates a
  float towards zero.  The mean rate is a finite number here: \<open>int\<close> of a NaN or of an
  infinity raises, and is outside the model.
\<close>

definition scale_factor :: real where
  "scale_factor = 786 / 1000"

definition py_int :: "real \<Rightarrow> int" where
  "py_int x = (if x < 0 then \<lceil>x\<rceil> else \<lfloor>x\<rfloor>)"

definition frame_of :: "(real \<Rightarrow> real) \<Rightarrow> real \<Rightarrow> int" where
  "frame_of rnd mean_rate =
     py_int (rnd (rnd (mean_rate * rnd (fl binary64 scale_factor)) / 2))"

section \<open>Sixty-four-bit integers\<close>

text \<open>
  The sample positions are \<open>numpy.int64\<close> values and the frame is a Python integer.
  In \<open>pos - frame\<close> and \<open>pos + frame\<close> the frame is converted to \<open>int64\<close>, which
  raises \<open>OverflowError\<close> when it does not fit (NumPy 2), and the result wraps around.
\<close>

definition fits64 :: "int \<Rightarrow> bool" where
  "fits64 x = (- (2 ^ 63) \<le> x \<and> x < 2 ^ 63)"

definition int64 :: "int \<Rightarrow> int" where
  "int64 x = (x + 2 ^ 63) mod 2 ^ 64 - 2 ^ 63"

section \<open>The beat segmenter\<close>

text \<open>
  A wfdb annotation object: the sample positions and, in a parallel list, the symbols.
\<close>

record annotation =
  sample :: "int list"
  symbol :: "string list"

text \<open>
  The variables of one call of \<open>separate_hearbeats\<close>: the three objects the caller
  passes by reference, and the two lists the call builds.
\<close>

record ('a, 'l) seg_vars =
  arg_signal :: "'a list list"
  arg_annotations :: annotation
  arg_classes :: "string \<rightharpoonup> 'l"
  signal_images :: "'a list list"
  labels :: "'l list"

text \<open>
  \<open>signal[:, 0]\<close>: column 0 of the two-dimensional sample array, given as its rows.
  An array without columns has no column 0; an array without rows is taken to have its
  columns, as every record that wfdb loads has.
\<close>

definition column0 :: "'a list list \<Rightarrow> ('e, 'r) error + 'a list" where
  "column0 rows = (if [] \<in> set rows then Inl IndexError else Inr (map hd rows))"

text \<open>
  The body of the loop, for the pair \<open>(i, pos)\<close> of \<open>enumerate(annotations.sample)\<close>;
  \<open>sig\<close> is the local one-dimensional copy of the signal.  The slice bounds are
  computed, and can raise, before anything is appended.
\<close>

definition loop_body ::
  "int \<Rightarrow> 'a list \<Rightarrow> nat \<Rightarrow> int \<Rightarrow> ('a, 'l) seg_vars
     \<Rightarrow> ('a, 'l) seg_vars \<times> ('e, 'r) error option" where
  "loop_body frame sig i pos v =
     (let syms = symbol (arg_annotations v)
      in if length syms \<le> i then (v, Some IndexError)
         else (case arg_classes v (syms ! i) of
                 None \<Rightarrow> (v, None)
               | Some c \<Rightarrow>
                   if \<not> fits64 frame then (v, Some OverflowError)
                   else (v\<lparr>signal_images :=
                             signal_images v
                             @ [py_slice sig (int64 (pos - frame)) (int64 (pos + frame))],
                           labels := labels v @ [c]\<rparr>, None)))"

text \<open>
  The call, returning the variables as they are when the function returns or raises.
\<close>

definition separate_hearbeats_run ::
  "(real \<Rightarrow> real) \<Rightarrow> 'a list list \<Rightarrow> annotation \<Rightarrow> real \<Rightarrow> (string \<rightharpoonup> 'l)
     \<Rightarrow> ('a, 'l) seg_vars \<times> ('e, 'r) error option" where
  "separate_hearbeats_run rnd signal annotations mean_rate supergroup_classes =
     (let v0 = \<lparr>arg_signal = signal, arg_annotations = annotations,
                arg_classes = supergroup_classes, signal_images = [], labels = []\<rparr>;
          frame = frame_of rnd mean_rate
      in case column0 (arg_signal v0) of
           Inl e \<Rightarrow> (v0, Some e)
         | Inr sig \<Rightarrow>
             for_enumerate (loop_body frame sig) 0 (sample (arg_annotations v0)) v0)"

text \<open>The value returned: \<open>signal_images, labels\<close>.\<close>

definition separate_hearbeats ::
  "(real \<Rightarrow> real) \<Rightarrow> 'a list list \<Rightarrow> annotation \<Rightarrow> real \<Rightarrow> (string \<rightharpoonup> 'l)
     \<Rightarrow> ('e, 'r) error + ('a list list \<times> 'l list)" where
  "separate_hearbeats rnd signal annotations mean_rate supergroup_classes =
     (case separate_hearbeats_run rnd signal annotations mean_rate supergroup_classes of
        (v, Some e) \<Rightarrow> Inl e
      | (v, None) \<Rightarrow> Inr (signal_images v, labels v))"

text \<open>
  The annotations that qualify: the pairs \<open>(pos, symbol)\<close>, in order, whose symbol is a
  key of the grouping table.
\<close>

definition qualifying :: "annotation \<Rightarrow> (string \<rightharpoonup> 'l) \<Rightarrow> (int \<times> string) list" where
  "qualifying a classes =
     filter (\<lambda>(pos, s). classes s \<noteq> None) (zip (sample a) (symbol a))"

section \<open>The rasterizer and its call\<close>

text \<open>
  A Python value passed as an argument: the \<open>process_data\<close> instance, or an array.
\<close>

datatype 'a pyarg = Instance | Array "'a list"

text \<open>
  \<open>def get_image_array(data)\<close>: one parameter.  The body hands \<open>data\<close> to matplotlib
  and reads the picture back through PIL; \<open>plot\<close> stands for those libraries.
\<close>

definition get_image_array ::
  "('a pyarg \<Rightarrow> 'e + 'img) \<Rightarrow> 'a pyarg \<Rightarrow> 'e call_error + 'img" where
  "get_image_array plot data =
     (case plot data of Inl e \<Rightarrow> Inl (Raised e) | Inr img_array \<Rightarrow> Inr img_array)"

text \<open>
  Calling a function of one parameter with positional arguments: any other number of
  arguments is a \<open>TypeError\<close>, raised before the body runs.
\<close>

definition call1 :: "('v \<Rightarrow> 'e call_error + 'y) \<Rightarrow> 'v list \<Rightarrow> 'e call_error + 'y" where
  "call1 f args = (case args of [x] \<Rightarrow> f x | _ \<Rightarrow> Inl TypeError)"

text \<open>
  \<open>self.get_image_array(beat)\<close>: the attribute is a plain function of the class, so the
  call is a bound-method call and passes the instance before \<open>beat\<close>.
\<close>

definition bound_get_image_array ::
  "('a pyarg \<Rightarrow> 'e + 'img) \<Rightarrow> 'a list \<Rightarrow> 'e call_error + 'img" where
  "bound_get_image_array plot beat = call1 (get_image_array plot) [Instance, Array beat]"

text \<open>
  \<open>np.array\<close> on the list of rendered arrays: arrays of one shape are stacked along a
  new first axis, whose items \<open>extend\<close> then appends one by one; arrays of unequal
  shapes raise \<open>ValueError\<close> (NumPy 1.24 and later).
\<close>

definition np_array :: "('img \<Rightarrow> nat list) \<Rightarrow> 'img list \<Rightarrow> ('e, 'r) error + 'img list" where
  "np_array shape imgs =
     (case imgs of
        [] \<Rightarrow> Inr []
      | x # xs \<Rightarrow> if list_all (\<lambda>y. shape y = shape x) xs then Inr imgs else Inl ValueError)"

section \<open>The record aggregator\<close>

text \<open>The two private lists of a \<open>process_data\<close> object, and \<open>__init__\<close>.\<close>

record ('img, 'l) process_data =
  image_arrays :: "'img list"
  label_strings :: "'l list"

definition init :: "('img, 'l) process_data" where
  "init = \<lparr>image_arrays = [], label_strings = []\<rparr>"

text \<open>
  What lies outside the repository: the rounding of the floating-point arithmetic on the
  mean rate, the wfdb loader (\<open>load_data\<close> returns the signal, its metadata and the
  annotations), the heart-rate estimator, the plotting libraries and the shape of an
  array.
\<close>

record ('a, 'f, 'e, 'img) world =
  rounding :: "real \<Rightarrow> real"
  load_data :: "string \<Rightarrow> 'e + ('a list list \<times> 'f \<times> annotation)"
  get_mean_heartrate :: "'a list list \<Rightarrow> 'f \<Rightarrow> 'e + real"
  plot :: "'a pyarg \<Rightarrow> 'e + 'img"
  array_shape :: "'img \<Rightarrow> nat list"

text \<open>
  The loop body from the assertion on, with \<open>start = 2\<close> and \<open>end = -1\<close>:
  the assertion, the extension of the labels, the rendering of the retained beats, their
  stacking and the extension of the images.  \<open>render beat\<close> is the evaluation of the call
  \<open>self.get_image_array(beat)\<close>.
\<close>

definition accumulate ::
  "('img \<Rightarrow> nat list) \<Rightarrow> ('a list \<Rightarrow> 'r + 'img) \<Rightarrow> ('img, 'l) process_data
     \<Rightarrow> 'a list list \<Rightarrow> 'l list \<Rightarrow> ('img, 'l) process_data \<times> ('e, 'r) error option" where
  "accumulate shape render st beats lbls =
     (if length beats \<noteq> length lbls then (st, Some AssertionError)
      else let st1 = st\<lparr>label_strings := label_strings st @ py_slice lbls 2 (- 1)\<rparr>
           in case comprehension render (py_slice beats 2 (- 1)) of
                Inl e \<Rightarrow> (st1, Some (Rendering e))
              | Inr rendered \<Rightarrow>
                  (case np_array shape rendered of
                     Inl e \<Rightarrow> (st1, Some e)
                   | Inr imgs \<Rightarrow> (st1\<lparr>image_arrays := image_arrays st1 @ imgs\<rparr>, None)))"

text \<open>The whole loop body for one record name.  Printing is not modelled.\<close>

definition process_record ::
  "('a list \<Rightarrow> 'r + 'img) \<Rightarrow> ('a, 'f, 'e, 'img) world \<Rightarrow> (string \<rightharpoonup> 'l) \<Rightarrow> string
     \<Rightarrow> ('img, 'l) process_data \<Rightarrow> ('img, 'l) process_data \<times> ('e, 'r) error option" where
  "process_record render w supergroup_classes record_name st =
     (case load_data w record_name of
        Inl e \<Rightarrow> (st, Some (Collaborator e))
      | Inr (signal, flds, annotations) \<Rightarrow>
          (case get_mean_heartrate w signal flds of
             Inl e \<Rightarrow> (st, Some (Collaborator e))
           | Inr mean \<Rightarrow>
               (case separate_hearbeats (rounding w) signal annotations mean
                       supergroup_classes of
                  Inl e \<Rightarrow> (st, Some e)
                | Inr (beats, lbls) \<Rightarrow> accumulate (array_shape w) render st beats lbls)))"

text \<open>
  \<open>create_img_arrays\<close> with the evaluation of the rendering call as a parameter, and
  as the source has it.
\<close>

definition create_img_arrays_with ::
  "('a list \<Rightarrow> 'r + 'img) \<Rightarrow> ('a, 'f, 'e, 'img) world \<Rightarrow> (string \<rightharpoonup> 'l) \<Rightarrow> string list
     \<Rightarrow> ('img, 'l) process_data \<Rightarrow> ('img, 'l) process_data \<times> ('e, 'r) error option" where
  "create_img_arrays_with render w supergroup_classes record_names st =
     for_each (process_record render w supergroup_classes) record_names st"

definition create_img_arrays ::
  "('a, 'f, 'e, 'img) world \<Rightarrow> (string \<rightharpoonup> 'l) \<Rightarrow> string list
     \<Rightarrow> ('img, 'l) process_data
     \<Rightarrow> ('img, 'l) process_data \<times> ('e, 'e call_error) error option" where
  "create_img_arrays w supergroup_classes record_names st =
     create_img_arrays_with (bound_get_image_array (plot w)) w supergroup_classes
       record_names st"

section \<open>Example data\<close>

text \<open>
  A ten-sample signal of one channel, four annotations of which the third is not a
  beat, and the notebook's grouping table for the normal class.
\<close>

definition ramp_signal :: "int list list" where
  "ramp_signal = [[0], [1], [2], [3], [4], [5], [6], [7], [8], [9]]"

definition ramp_annotations :: annotation where
  "ramp_annotations = \<lparr>sample = [1, 4, 5, 9], symbol = [''N'', ''N'', ''+'', ''N'']\<rparr>"

definition supergroups_inc_n :: "string \<rightharpoonup> nat" where
  "supergroups_inc_n = [''N'' \<mapsto> 4]"

text \<open>
  The notebook's table for the other classes, and a small world: the arithmetic is in
  double precision; record 100 is the ten-sample signal with eight beats, normal and
  ventricular in turn; its mean beat distance is 6 samples; the plotting libraries return
  the array as its own picture and fail on anything that is not an array; the shape of a
  picture is its length.
\<close>

definition supergroups_exc_n :: "string \<rightharpoonup> nat" where
  "supergroups_exc_n =
     map_of [(''A'', 0), (''a'', 0), (''J'', 0), (''S'', 0), (''e'', 0), (''j'', 0), (''n'', 0),
             (''V'', 1), (''r'', 1), (''E'', 1),
             (''F'', 2), (''f'', 2),
             (''Q'', 3), (''?'', 3)]"

definition example_beats :: annotation where
  "example_beats =
     \<lparr>sample = [2, 3, 4, 5, 6, 7, 8, 9],
      symbol = [''N'', ''V'', ''N'', ''V'', ''N'', ''V'', ''N'', ''V'']\<rparr>"

definition example_world :: "(int, unit, string, int list) world" where
  "example_world =
     \<lparr>rounding = fl binary64,
      load_data = (\<lambda>record_name.
         if record_name = ''100'' then Inr (ramp_signal, (), example_beats)
         else Inl ''no such record''),
      get_mean_heartrate = (\<lambda>signal flds. Inr 6),
      plot = (\<lambda>data. case data of Array xs \<Rightarrow> Inr xs | Instance \<Rightarrow> Inl ''not an array''),
      array_shape = (\<lambda>img. [length img])\<rparr>"

text \<open>
  The double nearest to 254.45292620865138, a mean rate at which the frame as the doubles
  compute it is not the floor of the exact quotient.
\<close>

definition tie_mean :: real where
  "tie_mean = 4476383217408651 / 2 ^ 44"

section \<open>Powers of two and exponents\<close>

lemma pow2_powr: "pow2 k = 2 powr (real_of_int k)"
  by (auto simp: pow2_def powr_realpow[symmetric] powr_minus divide_simps)

lemma pow2_pos [simp]: "0 < pow2 k"
  by (simp add: pow2_powr)

lemma pow2_neq0 [simp]: "pow2 k \<noteq> 0"
  using pow2_pos[of k] by linarith

lemma pow2_nonneg [simp]: "0 \<le> pow2 k"
  using pow2_pos[of k] by linarith

lemma pow2_add: "pow2 (a + b) = pow2 a * pow2 b"
  by (simp add: pow2_powr powr_add)

lemma pow2_mono: "a \<le> b \<Longrightarrow> pow2 a \<le> pow2 b"
  by (simp add: pow2_powr)

lemma pow2_less_iff: "pow2 a < pow2 b \<longleftrightarrow> a < b"
  by (simp add: pow2_powr)

lemma expo_bounds:
  assumes "0 < x"
  shows "pow2 (expo x) \<le> x" and "x < pow2 (expo x + 1)"
proof -
  have "pow2 (expo x) \<le> x \<and> x < pow2 (expo x + 1)"
  proof (cases "1 \<le> x")
    case True
    let ?n = "\<lfloor>x\<rfloor>"
    from True have n: "0 < ?n" by simp
    from bitlen_bounds[OF n] have lo: "2 ^ nat (bitlen ?n - 1) \<le> ?n"
      and hi: "?n < 2 ^ nat (bitlen ?n)" by simp_all
    from n have b: "1 \<le> bitlen ?n" by (auto simp: bitlen_alt_def)
    from lo have "real_of_int (2 ^ nat (bitlen ?n - 1)) \<le> x" by (simp only: le_floor_iff)
    then have 1: "pow2 (bitlen ?n - 1) \<le> x" using b by (simp add: pow2_def)
    from hi have "x < real_of_int (2 ^ nat (bitlen ?n))" by (simp only: floor_less_iff)
    then have 2: "x < pow2 (bitlen ?n)" using b by (simp add: pow2_def)
    from 1 2 True show ?thesis by (simp add: expo_def)
  next
    case False
    let ?y = "1 / x"
    let ?N = "\<lceil>?y\<rceil> - 1"
    from False assms have y: "1 < ?y" by simp
    then have N: "0 < ?N" by linarith
    from bitlen_bounds[OF N] have lo: "2 ^ nat (bitlen ?N - 1) \<le> ?N"
      and hi: "?N < 2 ^ nat (bitlen ?N)" by simp_all
    from N have b: "1 \<le> bitlen ?N" by (auto simp: bitlen_alt_def)
    from lo have "2 ^ nat (bitlen ?N - 1) < \<lceil>?y\<rceil>" by linarith
    then have "real_of_int (2 ^ nat (bitlen ?N - 1)) < ?y" by (simp only: less_ceiling_iff)
    then have "2 ^ nat (bitlen ?N - 1) < ?y" by simp
    then have 1: "x < 1 / 2 ^ nat (bitlen ?N - 1)"
      using assms by (simp add: field_simps)
    from hi have "\<lceil>?y\<rceil> \<le> 2 ^ nat (bitlen ?N)" by linarith
    then have "?y \<le> real_of_int (2 ^ nat (bitlen ?N))" by (simp only: ceiling_le_iff)
    then have "?y \<le> 2 ^ nat (bitlen ?N)" by simp
    then have 2: "1 / 2 ^ nat (bitlen ?N) \<le> x"
      using assms by (simp add: field_simps)
    have e: "expo x = - bitlen ?N" using False by (simp add: expo_def)
    have p1: "pow2 (- bitlen ?N) = 1 / 2 ^ nat (bitlen ?N)" using b by (simp add: pow2_def)
    have p2: "pow2 (- bitlen ?N + 1) = 1 / 2 ^ nat (bitlen ?N - 1)"
      using b by (auto simp: pow2_def nat_diff_distrib)
    from 1 2 show ?thesis by (simp only: e p1 p2)
  qed
  then show "pow2 (expo x) \<le> x" and "x < pow2 (expo x + 1)" by simp_all
qed

lemma expo_eqI:
  assumes "pow2 e \<le> x" and "x < pow2 (e + 1)"
  shows "expo x = e"
proof -
  have x: "0 < x" using assms(1) pow2_pos[of e] by linarith
  from expo_bounds[OF x] assms have "pow2 e < pow2 (expo x + 1)" "pow2 (expo x) < pow2 (e + 1)"
    by linarith+
  then show ?thesis by (simp add: pow2_less_iff)
qed

section \<open>Rounding to nearest\<close>

lemma rne_error: "\<bar>real_of_int (rne y) - y\<bar> \<le> 1 / 2"
  by (auto simp: rne_def Let_def)

lemma rne_nonneg: "0 \<le> y \<Longrightarrow> 0 \<le> rne y"
  by (auto simp: rne_def Let_def)

lemma rne_of_int [simp]: "rne (of_int n) = n"
  by (simp add: rne_def Let_def)

lemma fl_eval:
  assumes "pow2 e \<le> x" and "x < pow2 (e + 1)" and "emin f \<le> e"
  shows "fl f x = of_int (rne (x / pow2 (e - int (prec f) + 1))) * pow2 (e - int (prec f) + 1)"
proof -
  have x: "0 < x" using assms(1) pow2_pos[of e] by linarith
  have "expo \<bar>x\<bar> = e" using assms(1,2) x by (simp add: expo_eqI)
  then show ?thesis using x assms(3) by (simp add: fl_def Let_def max_def)
qed

lemma fl_nonneg:
  assumes "0 \<le> x"
  shows "0 \<le> fl f x"
proof -
  have "0 \<le> real_of_int (rne (x / pow2 k)) * pow2 k" for k
    using assms by (intro mult_nonneg_nonneg) (simp_all add: rne_nonneg)
  then show ?thesis using assms by (simp add: fl_def Let_def sgn_if)
qed

lemma fl_error:
  assumes "pow2 (emin f) \<le> \<bar>x\<bar>"
  shows "\<bar>fl f x - x\<bar> \<le> \<bar>x\<bar> / 2 ^ prec f"
proof -
  have x: "0 < \<bar>x\<bar>" using assms pow2_pos[of "emin f"] by linarith
  let ?e = "expo \<bar>x\<bar>"
  let ?u = "pow2 (?e - int (prec f) + 1)"
  from expo_bounds[OF x] assms have "pow2 (emin f) < pow2 (?e + 1)" by linarith
  then have e: "emin f \<le> ?e" by (simp add: pow2_less_iff)
  have fl: "fl f x = sgn x * of_int (rne (\<bar>x\<bar> / ?u)) * ?u"
    using x e by (simp add: fl_def Let_def max_def)
  have "x = sgn x * (\<bar>x\<bar> / ?u) * ?u" by (simp add: sgn_if)
  then have "fl f x - x = sgn x * (of_int (rne (\<bar>x\<bar> / ?u)) - \<bar>x\<bar> / ?u) * ?u"
    by (simp only: fl) (simp add: algebra_simps)
  then have "\<bar>fl f x - x\<bar> = \<bar>of_int (rne (\<bar>x\<bar> / ?u)) - \<bar>x\<bar> / ?u\<bar> * ?u"
    using x by (simp add: abs_mult sgn_if)
  also have "\<dots> \<le> 1 / 2 * ?u"
    by (intro mult_right_mono rne_error) simp
  also have "1 / 2 * ?u = pow2 ?e / 2 ^ prec f"
  proof -
    have "pow2 ?e = pow2 (?e - int (prec f) + 1) * pow2 (int (prec f) - 1)"
      by (simp add: pow2_add[symmetric])
    moreover have "pow2 (int (prec f) - 1) * 2 = 2 ^ prec f"
      using pow2_add[of "int (prec f) - 1" 1] by (simp add: pow2_def)
    ultimately show ?thesis by (simp add: field_simps)
  qed
  also have "\<dots> \<le> \<bar>x\<bar> / 2 ^ prec f"
    using expo_bounds(1)[OF x] by (simp add: divide_right_mono)
  finally show ?thesis .
qed

lemma rne_le:
  assumes "y \<le> of_int N"
  shows "rne y \<le> N"
proof (cases "\<lfloor>y\<rfloor> < N")
  case True
  then show ?thesis by (auto simp: rne_def Let_def)
next
  case False
  moreover from assms have "\<lfloor>y\<rfloor> \<le> N" by (simp add: floor_le_iff)
  ultimately have f: "\<lfloor>y\<rfloor> = N" by simp
  then have "of_int N \<le> y" by (metis of_int_floor_le)
  with assms have "y = of_int N" by simp
  then show ?thesis by simp
qed

lemma fl_abs: "\<bar>fl f x\<bar> = fl f \<bar>x\<bar>"
proof (cases "x = 0")
  case True
  then show ?thesis by (simp add: fl_def)
next
  case False
  have "0 \<le> real_of_int (rne (\<bar>x\<bar> / pow2 k))" for k
    by (simp add: rne_nonneg)
  then show ?thesis using False by (simp add: fl_def Let_def abs_mult sgn_if)
qed

lemma fl_le_pow2:
  assumes "0 \<le> x" and "x \<le> pow2 k" and "emin f \<le> k" and "1 \<le> prec f"
  shows "fl f x \<le> pow2 k"
proof (cases "x = 0")
  case True
  then show ?thesis by (simp add: fl_def)
next
  case False
  with assms(1) have x: "0 < x" by simp
  let ?e = "max (expo \<bar>x\<bar>) (emin f)"
  let ?u = "pow2 (?e - int (prec f) + 1)"
  let ?j = "k - ?e + int (prec f) - 1"
  from expo_bounds(1)[OF x] assms(2) have "pow2 (expo x) < pow2 (k + 1)"
    using pow2_less_iff[of k "k + 1"] by linarith
  then have "expo x \<le> k" by (simp add: pow2_less_iff)
  with assms(3) x have e: "?e \<le> k" by simp
  with assms(4) have j: "0 \<le> ?j" by linarith
  have k: "pow2 k = pow2 ?j * ?u" by (simp add: pow2_add[symmetric])
  have pj: "pow2 ?j = of_int (2 ^ nat ?j)" using j by (simp add: pow2_def)
  have "x / ?u \<le> pow2 ?j" using assms(2) by (simp add: k field_simps)
  then have "rne (x / ?u) \<le> 2 ^ nat ?j" unfolding pj by (rule rne_le)
  then have "real_of_int (rne (x / ?u)) \<le> pow2 ?j" unfolding pj by (simp only: of_int_le_iff)
  then have "real_of_int (rne (x / ?u)) * ?u \<le> pow2 ?j * ?u"
    by (intro mult_right_mono) simp_all
  then show ?thesis using x by (simp add: fl_def Let_def k)
qed

lemma accurate_fl:
  assumes "24 \<le> prec f" and "emin f \<le> - 126"
  shows "accurate (fl f)"
proof -
  have small: "\<bar>fl f x\<bar> \<le> pow2 (- 126)" if "\<bar>x\<bar> \<le> pow2 (- 126)" for x
    unfolding fl_abs using _ that assms(2)
    by (rule fl_le_pow2) (use assms(1) in simp_all)
  have "\<bar>fl f x - x\<bar> \<le> \<bar>x\<bar> / 2 ^ 24" if "pow2 (- 126) \<le> \<bar>x\<bar>" for x
  proof -
    have "pow2 (emin f) \<le> pow2 (- 126)" using assms(2) by (rule pow2_mono)
    with that have "pow2 (emin f) \<le> \<bar>x\<bar>" by linarith
    then have "\<bar>fl f x - x\<bar> \<le> \<bar>x\<bar> / 2 ^ prec f" by (rule fl_error)
    also have "\<dots> \<le> \<bar>x\<bar> / 2 ^ 24"
      using assms(1) by (intro divide_left_mono power_increasing) simp_all
    finally show ?thesis .
  qed
  with small show ?thesis by (simp add: accurate_def fl_nonneg)
qed

lemma accurate_binary64: "accurate (fl binary64)"
  by (rule accurate_fl) (simp_all add: binary64_def)

lemma accurate_binary32: "accurate (fl binary32)"
  by (rule accurate_fl) (simp_all add: binary32_def)

section \<open>The frame\<close>

lemma scale_factor_double:
  "fl binary64 scale_factor = 1769914653556605 / 2251799813685248"
proof -
  have "fl binary64 scale_factor
        = of_int (rne (scale_factor / pow2 (- 1 - int (prec binary64) + 1)))
          * pow2 (- 1 - int (prec binary64) + 1)"
    by (rule fl_eval) (simp_all add: scale_factor_def pow2_def binary64_def)
  then show ?thesis
    by (simp add: scale_factor_def pow2_def binary64_def rne_def Let_def)
qed

lemma accurate_nonneg: "accurate rnd \<Longrightarrow> 0 \<le> x \<Longrightarrow> 0 \<le> rnd x"
  by (simp add: accurate_def)

lemma accurate_interval:
  assumes "accurate rnd" and "pow2 (- 126) \<le> y" and "y \<le> pow2 127"
  shows "y * (1 - 1 / 2 ^ 24) \<le> rnd y" and "rnd y \<le> y * (1 + 1 / 2 ^ 24)"
proof -
  have y: "0 < y" using assms(2) pow2_pos[of "- 126"] by linarith
  then have "pow2 (- 126) \<le> \<bar>y\<bar> \<and> \<bar>y\<bar> \<le> pow2 127" using assms(2,3) by simp
  with assms(1) have "\<bar>rnd y - y\<bar> \<le> \<bar>y\<bar> / 2 ^ 24" by (simp add: accurate_def)
  then have d: "\<bar>rnd y - y\<bar> \<le> y / 2 ^ 24" using y by simp
  have e: "y * (1 - 1 / 2 ^ 24) = y - y / 2 ^ 24" "y * (1 + 1 / 2 ^ 24) = y + y / 2 ^ 24"
    by (simp_all add: algebra_simps)
  from d show "y * (1 - 1 / 2 ^ 24) \<le> rnd y" unfolding e by linarith
  from d show "rnd y \<le> y * (1 + 1 / 2 ^ 24)" unfolding e by linarith
qed

lemma accurate_upper:
  assumes "accurate rnd" and "0 \<le> y" and "y \<le> B" and "pow2 (- 126) \<le> B"
    and "B \<le> pow2 127"
  shows "rnd y \<le> 2 * B"
proof (cases "y \<le> pow2 (- 126)")
  case True
  with assms(2) have "\<bar>y\<bar> \<le> pow2 (- 126)" by simp
  with assms(1) have "\<bar>rnd y\<bar> \<le> pow2 (- 126)" by (simp add: accurate_def)
  with assms(2,3,4) show ?thesis by linarith
next
  case False
  then have lo: "pow2 (- 126) \<le> y" by simp
  from assms(3,5) have hi: "y \<le> pow2 127" by simp
  have "y * (1 + 1 / 2 ^ 24) \<le> y * 2" using assms(2) by (intro mult_left_mono) simp_all
  with accurate_interval(2)[OF assms(1) lo hi] assms(3) show ?thesis by linarith
qed

lemma rounded_scale_factor:
  assumes "accurate rnd"
  shows "1 / 2 \<le> rnd (fl binary64 scale_factor)" and "rnd (fl binary64 scale_factor) \<le> 1"
proof -
  let ?K = "1769914653556605 / 2251799813685248 :: real"
  have K: "pow2 (- 126) \<le> ?K" "?K \<le> pow2 127" by (simp_all add: pow2_def)
  from accurate_interval[OF assms K]
  show "1 / 2 \<le> rnd (fl binary64 scale_factor)" and "rnd (fl binary64 scale_factor) \<le> 1"
    by (simp_all add: scale_factor_double)
qed

lemma frame_of_floor:
  assumes "accurate rnd" and "0 < m"
  shows "frame_of rnd m = \<lfloor>rnd (rnd (m * rnd (fl binary64 scale_factor)) / 2)\<rfloor>"
    and "0 \<le> frame_of rnd m"
proof -
  have "0 \<le> rnd (fl binary64 scale_factor)"
    using assms(1) by (rule accurate_nonneg) (simp add: scale_factor_double)
  then have "0 \<le> m * rnd (fl binary64 scale_factor)" using assms(2) by simp
  then have "0 \<le> rnd (m * rnd (fl binary64 scale_factor))"
    using assms(1) accurate_nonneg by blast
  then have "0 \<le> rnd (m * rnd (fl binary64 scale_factor)) / 2" by simp
  then have q: "0 \<le> rnd (rnd (m * rnd (fl binary64 scale_factor)) / 2)"
    using assms(1) accurate_nonneg by blast
  then show "frame_of rnd m = \<lfloor>rnd (rnd (m * rnd (fl binary64 scale_factor)) / 2)\<rfloor>"
    by (simp add: frame_of_def py_int_def)
  with q show "0 \<le> frame_of rnd m" by simp
qed

lemma frame_quotient:
  assumes "accurate rnd" and "pow2 (- 100) \<le> m" and "m \<le> pow2 100"
  shows "m * scale_factor / 2 * (1 - 1 / 2 ^ 22)
           \<le> rnd (rnd (m * rnd (fl binary64 scale_factor)) / 2)"
    and "rnd (rnd (m * rnd (fl binary64 scale_factor)) / 2)
           \<le> m * scale_factor / 2 * (1 + 1 / 2 ^ 22)"
proof -
  define K :: real where "K = 1769914653556605 / 2251799813685248"
  define a :: real where "a = 1 - 1 / 2 ^ 24"
  define b :: real where "b = 1 + 1 / 2 ^ 24"
  define c where "c = rnd K"
  define p where "p = rnd (m * c)"
  define q where "q = rnd (p / 2)"
  have m: "0 < m" using assms(2) pow2_pos[of "- 100"] by linarith
  have a: "0 < a" "a \<le> 1" and b: "1 \<le> b" "b \<le> 2" by (simp_all add: a_def b_def)
  have lo: "pow2 (- 126) \<le> pow2 (- 100) / 16" and hi: "4 * pow2 100 \<le> pow2 127"
    by (simp_all add: pow2_def)
  have K: "1 / 2 \<le> K * a" "K * b \<le> 1" "pow2 (- 126) \<le> K" "K \<le> pow2 127"
    by (simp_all add: K_def a_def b_def pow2_def)
  from accurate_interval[OF assms(1) K(3,4)]
  have c: "K * a \<le> c" "c \<le> K * b" by (simp_all add: c_def a_def b_def)
  then have c01: "1 / 2 \<le> c" "c \<le> 1" using K by linarith+
  have y1: "m * (K * a) \<le> m * c" "m * c \<le> m * (K * b)"
    using mult_left_mono[OF c(1), of m] mult_left_mono[OF c(2), of m] m by linarith+
  have y1r: "m / 2 \<le> m * c" "m * c \<le> m"
    using mult_left_mono[OF c01(1), of m] mult_left_mono[OF c01(2), of m] m by linarith+
  then have "pow2 (- 126) \<le> m * c" "m * c \<le> pow2 127"
    using assms(2,3) lo hi m by linarith+
  from accurate_interval[OF assms(1) this]
  have p: "m * c * a \<le> p" "p \<le> m * c * b" by (simp_all add: p_def a_def b_def)
  have "m * c * a \<ge> m / 2 * a" using mult_right_mono[OF y1r(1), of a] a by linarith
  moreover have "m / 2 * a \<ge> m / 4" using m by (simp add: a_def field_simps)
  moreover have "m * c * b \<le> m * b" using mult_right_mono[OF y1r(2), of b] b by linarith
  moreover have "m * b \<le> 2 * m" using mult_left_mono[OF b(2), of m] m by linarith
  ultimately have pr: "m / 4 \<le> p" "p \<le> 2 * m" using p by linarith+
  then have "pow2 (- 126) \<le> p / 2" "p / 2 \<le> pow2 127"
    using assms(2,3) lo hi m by linarith+
  from accurate_interval[OF assms(1) this]
  have q: "p / 2 * a \<le> q" "q \<le> p / 2 * b" by (simp_all add: q_def a_def b_def)
  have "m * (K * a) * a \<le> m * c * a" using mult_right_mono[OF y1(1), of a] a by linarith
  with p(1) have "m * (K * a) * a \<le> p" by linarith
  then have "m * (K * a) * a / 2 \<le> p / 2" by linarith
  then have "m * (K * a) * a / 2 * a \<le> p / 2 * a"
    using mult_right_mono[of "m * (K * a) * a / 2" "p / 2" a] a by linarith
  with q(1) have ql: "m * (K * a * a * a / 2) \<le> q" by (simp add: algebra_simps)
  have "m * c * b \<le> m * (K * b) * b" using mult_right_mono[OF y1(2), of b] b by linarith
  with p(2) have "p \<le> m * (K * b) * b" by linarith
  then have "p / 2 \<le> m * (K * b) * b / 2" by linarith
  then have "p / 2 * b \<le> m * (K * b) * b / 2 * b"
    using mult_right_mono[of "p / 2" "m * (K * b) * b / 2" b] b by linarith
  with q(2) have qh: "q \<le> m * (K * b * b * b / 2)" by (simp add: algebra_simps)
  have "scale_factor / 2 * (1 - 1 / 2 ^ 22) \<le> K * a * a * a / 2"
    by (simp add: K_def a_def scale_factor_def)
  then have "m * (scale_factor / 2 * (1 - 1 / 2 ^ 22)) \<le> m * (K * a * a * a / 2)"
    using m by (simp only: mult_le_cancel_left_pos)
  with ql have 1: "m * scale_factor / 2 * (1 - 1 / 2 ^ 22) \<le> q" by (simp add: algebra_simps)
  have "K * b * b * b / 2 \<le> scale_factor / 2 * (1 + 1 / 2 ^ 22)"
    by (simp add: K_def b_def scale_factor_def)
  then have "m * (K * b * b * b / 2) \<le> m * (scale_factor / 2 * (1 + 1 / 2 ^ 22))"
    using m by (simp only: mult_le_cancel_left_pos)
  with qh have 2: "q \<le> m * scale_factor / 2 * (1 + 1 / 2 ^ 22)" by (simp add: algebra_simps)
  from 1 show "m * scale_factor / 2 * (1 - 1 / 2 ^ 22)
           \<le> rnd (rnd (m * rnd (fl binary64 scale_factor)) / 2)"
    by (simp add: q_def p_def c_def K_def scale_factor_double)
  from 2 show "rnd (rnd (m * rnd (fl binary64 scale_factor)) / 2)
           \<le> m * scale_factor / 2 * (1 + 1 / 2 ^ 22)"
    by (simp add: q_def p_def c_def K_def scale_factor_double)
qed

lemma pow2_100: "pow2 (- 100) \<le> 1 / 2 ^ 50" "2 ^ 70 \<le> pow2 100"
  by (simp_all add: pow2_def)

lemma frame_of_between:
  assumes "accurate rnd" and "pow2 (- 100) \<le> m" and "m \<le> pow2 100"
    and "of_int n \<le> m * scale_factor / 2 * (1 - 1 / 2 ^ 22)"
    and "m * scale_factor / 2 * (1 + 1 / 2 ^ 22) < of_int n + 1"
  shows "frame_of rnd m = n"
proof -
  let ?q = "rnd (rnd (m * rnd (fl binary64 scale_factor)) / 2)"
  have m: "0 < m" using assms(2) pow2_pos[of "- 100"] by linarith
  from frame_quotient[OF assms(1,2,3)] assms(4,5)
  have "of_int n \<le> ?q" "?q < of_int n + 1" by linarith+
  then have "\<lfloor>?q\<rfloor> = n" by (simp add: floor_unique)
  then show ?thesis using frame_of_floor(1)[OF assms(1) m] by simp
qed

lemma frame_of_small:
  assumes "accurate rnd" and "0 < m" and "m \<le> pow2 (- 100)"
  shows "frame_of rnd m = 0"
proof -
  let ?c = "rnd (fl binary64 scale_factor)"
  let ?p = "rnd (m * ?c)"
  let ?q = "rnd (?p / 2)"
  note c = rounded_scale_factor[OF assms(1)]
  have B: "pow2 (- 126) \<le> pow2 (- 100)" "pow2 (- 100) \<le> pow2 127"
    "4 * pow2 (- 100) < 1" by (simp_all add: pow2_def)
  have mc0: "0 \<le> m * ?c" using assms(2) c(1) by simp
  have "m * ?c \<le> m * 1" using c(2) assms(2) by (intro mult_left_mono) simp_all
  with assms(3) have mc: "m * ?c \<le> pow2 (- 100)" by simp
  from accurate_upper[OF assms(1) mc0 mc B(1,2)] have p: "?p \<le> 2 * pow2 (- 100)" .
  have p0: "0 \<le> ?p" using assms(1) mc0 by (rule accurate_nonneg)
  then have h0: "0 \<le> ?p / 2" by simp
  from p have h: "?p / 2 \<le> pow2 (- 100)" by simp
  from accurate_upper[OF assms(1) h0 h B(1,2)] have "?q \<le> 2 * pow2 (- 100)" .
  with B(3) have q1: "?q < 1" by linarith
  have q0: "0 \<le> ?q" using assms(1) h0 by (rule accurate_nonneg)
  from q0 q1 have "\<lfloor>?q\<rfloor> = 0" by (simp add: floor_unique)
  with frame_of_floor(1)[OF assms(1,2)] show ?thesis by simp
qed

lemma frame_of_fits:
  assumes "accurate rnd" and "0 < m" and "m \<le> 23000000000000000000"
  shows "fits64 (frame_of rnd m)"
proof (cases "m \<le> pow2 (- 100)")
  case True
  with assms(1,2) have "frame_of rnd m = 0" by (rule frame_of_small)
  then show ?thesis by (simp add: fits64_def)
next
  case False
  let ?q = "rnd (rnd (m * rnd (fl binary64 scale_factor)) / 2)"
  from False have r1: "pow2 (- 100) \<le> m" by simp
  have "(23000000000000000000::real) \<le> 2 ^ 70" by simp
  with assms(3) pow2_100(2) have r2: "m \<le> pow2 100" by linarith
  have "m * scale_factor / 2 * (1 + 1 / 2 ^ 22) < 2 ^ 63"
    using assms(3) by (simp add: scale_factor_def)
  with frame_quotient(2)[OF assms(1) r1 r2] have "?q < of_int (2 ^ 63)" by simp
  then have "\<lfloor>?q\<rfloor> < 2 ^ 63" by (simp only: floor_less_iff)
  with frame_of_floor[OF assms(1,2)] show ?thesis by (simp add: fits64_def)
qed

lemma frame_of_near:
  assumes "accurate rnd" and "0 < m" and "m \<le> 1000000"
  shows "\<bar>frame_of rnd m - \<lfloor>m * scale_factor / 2\<rfloor>\<bar> \<le> 1"
proof (cases "m \<le> pow2 (- 100)")
  case True
  with assms(1,2) have f: "frame_of rnd m = 0" by (rule frame_of_small)
  have "pow2 (- 100) \<le> 1" by (simp add: pow2_def)
  with True have "m \<le> 1" by linarith
  with assms(2) have "0 \<le> m * scale_factor / 2" "m * scale_factor / 2 < 1"
    by (simp_all add: scale_factor_def)
  then have "\<lfloor>m * scale_factor / 2\<rfloor> = 0" by (simp add: floor_unique)
  with f show ?thesis by simp
next
  case False
  let ?q = "rnd (rnd (m * rnd (fl binary64 scale_factor)) / 2)"
  let ?x = "m * scale_factor / 2"
  from False have r1: "pow2 (- 100) \<le> m" by simp
  have "(1000000::real) \<le> 2 ^ 70" by simp
  with assms(3) pow2_100(2) have r2: "m \<le> pow2 100" by linarith
  have e: "?x * (1 / 2 ^ 22) < 1" using assms(2,3) by (simp add: scale_factor_def)
  have d: "?x * (1 - 1 / 2 ^ 22) = ?x - ?x * (1 / 2 ^ 22)"
    "?x * (1 + 1 / 2 ^ 22) = ?x + ?x * (1 / 2 ^ 22)" by (simp_all add: algebra_simps)
  from frame_quotient[OF assms(1) r1 r2] e have "?x - 1 < ?q" "?q < ?x + 1"
    unfolding d by linarith+
  then have "\<lfloor>?x\<rfloor> - 1 \<le> \<lfloor>?q\<rfloor>" "\<lfloor>?q\<rfloor> \<le> \<lfloor>?x\<rfloor> + 1" by linarith+
  with frame_of_floor(1)[OF assms(1,2)] show ?thesis by simp
qed

lemma frame_of_6:
  assumes "accurate rnd"
  shows "frame_of rnd 6 = 2"
  using assms
proof (rule frame_of_between)
  show "pow2 (- 100) \<le> 6" "6 \<le> pow2 100" using pow2_100 by simp_all
qed (simp_all add: scale_factor_def)

lemma frame_of_example:
  assumes "accurate rnd" and "\<bar>m - 454.73\<bar> \<le> 0.005"
  shows "frame_of rnd m = 178"
  using assms(1)
proof (rule frame_of_between)
  have "\<bar>m - 45473 / 100\<bar> \<le> 5 / 1000" using assms(2) by simp
  then have m: "454725 / 1000 \<le> m \<and> m \<le> 454735 / 1000" by linarith
  have p: "(1::real) / 2 ^ 50 \<le> 1" "(1000::real) \<le> 2 ^ 70" by simp_all
  from m p pow2_100 show "pow2 (- 100) \<le> m" by linarith
  from m p pow2_100 show "m \<le> pow2 100" by linarith
  from m show "of_int 178 \<le> m * scale_factor / 2 * (1 - 1 / 2 ^ 22)"
    by (simp add: scale_factor_def)
  from m show "m * scale_factor / 2 * (1 + 1 / 2 ^ 22) < of_int 178 + 1"
    by (simp add: scale_factor_def)
qed

lemma frame_of_large:
  assumes "accurate rnd" and "24000000000000000000 \<le> m" and "m \<le> 40000000000000000000"
  shows "\<not> fits64 (frame_of rnd m)"
proof -
  let ?q = "rnd (rnd (m * rnd (fl binary64 scale_factor)) / 2)"
  have p: "(1::real) / 2 ^ 50 \<le> 1" "(40000000000000000000::real) \<le> 2 ^ 70" by simp_all
  have r1: "pow2 (- 100) \<le> m" using assms(2) p pow2_100 by linarith
  have r2: "m \<le> pow2 100" using assms(3) p pow2_100 by linarith
  note r = r1 r2
  have m: "0 < m" using assms(2) by linarith
  have "2 ^ 63 \<le> m * scale_factor / 2 * (1 - 1 / 2 ^ 22)"
    using assms(2) by (simp add: scale_factor_def)
  with frame_quotient(1)[OF assms(1) r] have "of_int (2 ^ 63) \<le> ?q" by simp
  then have "2 ^ 63 \<le> \<lfloor>?q\<rfloor>" by (simp only: le_floor_iff)
  then show ?thesis using frame_of_floor(1)[OF assms(1) m] by (simp add: fits64_def)
qed

lemma tie_mean_double: "fl binary64 tie_mean = tie_mean"
proof -
  have "fl binary64 tie_mean
        = of_int (rne (tie_mean / pow2 (7 - int (prec binary64) + 1)))
          * pow2 (7 - int (prec binary64) + 1)"
    by (rule fl_eval) (simp_all add: tie_mean_def pow2_def binary64_def)
  then show ?thesis
    by (simp add: tie_mean_def pow2_def binary64_def rne_def Let_def)
qed

lemma frame_of_tie_mean: "frame_of (fl binary64) tie_mean = 100"
proof -
  let ?K = "1769914653556605 / 2251799813685248 :: real"
  have c: "fl binary64 ?K = ?K"
  proof -
    have "fl binary64 ?K = of_int (rne (?K / pow2 (- 1 - int (prec binary64) + 1)))
            * pow2 (- 1 - int (prec binary64) + 1)"
      by (rule fl_eval) (simp_all add: pow2_def binary64_def)
    then show ?thesis by (simp add: pow2_def binary64_def rne_def Let_def)
  qed
  have p: "fl binary64 (tie_mean * ?K) = 200"
  proof -
    have "fl binary64 (tie_mean * ?K)
          = of_int (rne (tie_mean * ?K / pow2 (7 - int (prec binary64) + 1)))
            * pow2 (7 - int (prec binary64) + 1)"
      by (rule fl_eval) (simp_all add: tie_mean_def pow2_def binary64_def)
    then show ?thesis by (simp add: tie_mean_def pow2_def binary64_def rne_def Let_def)
  qed
  have q: "fl binary64 (200 / 2) = 100"
  proof -
    have "fl binary64 (200 / 2)
          = of_int (rne (200 / 2 / pow2 (6 - int (prec binary64) + 1)))
            * pow2 (6 - int (prec binary64) + 1)"
      by (rule fl_eval) (simp_all add: pow2_def binary64_def)
    then show ?thesis by (simp add: pow2_def binary64_def rne_def Let_def)
  qed
  show ?thesis
    by (simp only: frame_of_def scale_factor_double c p q) (simp add: py_int_def)
qed

lemma tie_mean_exact: "\<lfloor>tie_mean * scale_factor / 2\<rfloor> = 99"
  by (simp add: tie_mean_def scale_factor_def)

lemma frame_of_between2:
  assumes "accurate rnd" and "0 < m" and "m \<le> pow2 100"
    and "of_int n \<le> m * scale_factor / 2 * (1 - 1 / 2 ^ 22)"
    and "m * scale_factor / 2 * (1 + 1 / 2 ^ 22) < of_int n + 1"
  shows "frame_of rnd m = n" and "\<lfloor>m * scale_factor / 2\<rfloor> = n"
proof -
  let ?x = "m * scale_factor / 2"
  have x: "0 < ?x" using assms(2) by (simp add: scale_factor_def)
  have d: "?x * (1 - 1 / 2 ^ 22) = ?x - ?x * (1 / 2 ^ 22)"
    "?x * (1 + 1 / 2 ^ 22) = ?x + ?x * (1 / 2 ^ 22)" by (simp_all add: algebra_simps)
  have "0 \<le> ?x * (1 / 2 ^ 22)" using x by simp
  with assms(4,5) have "of_int n \<le> ?x" "?x < of_int n + 1" unfolding d by linarith+
  then show fx: "\<lfloor>?x\<rfloor> = n" by (simp add: floor_unique)
  show "frame_of rnd m = n"
  proof (cases "m \<le> pow2 (- 100)")
    case True
    with assms(1,2) have f: "frame_of rnd m = 0" by (rule frame_of_small)
    have "pow2 (- 100) \<le> 1" by (simp add: pow2_def)
    with True have "m \<le> 1" by linarith
    with assms(2) have "0 \<le> ?x" "?x < 1" by (simp_all add: scale_factor_def)
    then have "\<lfloor>?x\<rfloor> = 0" by (simp add: floor_unique)
    with fx f show ?thesis by simp
  next
    case False
    then have "pow2 (- 100) \<le> m" by simp
    with assms(1) show ?thesis using assms(3,4,5) by (rule frame_of_between)
  qed
qed

section \<open>Sixty-four bits\<close>

lemma int64_fits: "fits64 x \<Longrightarrow> int64 x = x"
  by (simp add: fits64_def int64_def)

lemma mod_twice:
  fixes y M :: int
  assumes "0 \<le> y" and "y < 2 * M"
  shows "y mod M = (if y < M then y else y - M)"
proof (cases "y < M")
  case True
  with assms(1) show ?thesis by simp
next
  case False
  then have "0 \<le> y - M" "y - M < M" using assms(2) by simp_all
  then have a: "(y - M) mod M = y - M" by (rule mod_pos_pos_trivial)
  have b: "y mod M = (y - M) mod M" by simp
  have "y mod M = y - M" unfolding b by (rule a)
  with False show ?thesis by (simp only: if_False)
qed

lemma int64_range: "- (2 ^ 63) \<le> int64 x" "int64 x < 2 ^ 63"
  by (simp_all add: int64_def)

lemma int64_window:
  assumes "0 \<le> F" and "fits64 F"
  shows "int64 (p + F) = int64 (p - F) + 2 * F
         \<or> int64 (p + F) = int64 (p - F) + 2 * F - 2 ^ 64"
proof -
  let ?M = "2 ^ 64 :: int"
  let ?r = "(p - F + 2 ^ 63) mod ?M"
  have r: "0 \<le> ?r" "?r < ?M" by simp_all
  have F: "2 * F < ?M" using assms(2) by (simp add: fits64_def)
  have "(p + F + 2 ^ 63) mod ?M = (p - F + 2 ^ 63 + 2 * F) mod ?M" by (simp add: algebra_simps)
  also have "\<dots> = (?r + 2 * F) mod ?M" by (simp only: mod_add_left_eq)
  also have "\<dots> = (if ?r + 2 * F < ?M then ?r + 2 * F else ?r + 2 * F - ?M)"
    using r F assms(1) by (intro mod_twice) linarith+
  finally show ?thesis by (auto simp: int64_def)
qed

section \<open>The segmenter in closed form\<close>

lemma loop_closed:
  fixes v :: "('a, 'l) seg_vars"
  assumes "i + length xs \<le> length (symbol (arg_annotations v))" and "fits64 frame"
  shows "(for_enumerate (loop_body frame sig) i xs v :: ('a, 'l) seg_vars \<times> ('e, 'r) error option) =
     (v\<lparr>signal_images := signal_images v @
               map (\<lambda>(pos, s). py_slice sig (int64 (pos - frame)) (int64 (pos + frame)))
                 (filter (\<lambda>(pos, s). arg_classes v s \<noteq> None)
                    (zip xs (drop i (symbol (arg_annotations v))))),
            labels := labels v @
               map (\<lambda>(pos, s). the (arg_classes v s))
                 (filter (\<lambda>(pos, s). arg_classes v s \<noteq> None)
                    (zip xs (drop i (symbol (arg_annotations v)))))\<rparr>, None)"
  using assms(1)
proof (induction xs arbitrary: i v)
  case Nil
  then show ?case by simp
next
  case (Cons x xs)
  let ?syms = "symbol (arg_annotations v)"
  from Cons.prems have i: "i < length ?syms" by simp
  then have d: "drop i ?syms = ?syms ! i # drop (Suc i) ?syms"
    by (simp add: Cons_nth_drop_Suc)
  show ?case
  proof (cases "arg_classes v (?syms ! i)")
    case None
    with i have b: "(loop_body frame sig i x v :: ('a, 'l) seg_vars \<times> ('e, 'r) error option) = (v, None)"
      by (simp add: loop_body_def)
    from Cons.prems have "Suc i + length xs \<le> length ?syms" by simp
    from Cons.IH[OF this] b None d show ?thesis by simp
  next
    case (Some c)
    let ?v' = "v\<lparr>signal_images :=
                    signal_images v @ [py_slice sig (int64 (x - frame)) (int64 (x + frame))],
                   labels := labels v @ [c]\<rparr>"
    from Some i assms(2)
    have b: "(loop_body frame sig i x v :: ('a, 'l) seg_vars \<times> ('e, 'r) error option) = (?v', None)"
      by (simp add: loop_body_def)
    from Cons.prems have "Suc i + length xs \<le> length (symbol (arg_annotations ?v'))" by simp
    from Cons.IH[OF this] b Some d show ?thesis by simp
  qed
qed

lemma loop_overflow:
  fixes v :: "('a, 'l) seg_vars"
  assumes "i + length xs \<le> length (symbol (arg_annotations v))" and "\<not> fits64 frame"
  shows "(for_enumerate (loop_body frame sig) i xs v :: ('a, 'l) seg_vars \<times> ('e, 'r) error option) =
     (v, if filter (\<lambda>(pos, s). arg_classes v s \<noteq> None)
              (zip xs (drop i (symbol (arg_annotations v)))) = []
         then None else Some OverflowError)"
  using assms(1)
proof (induction xs arbitrary: i)
  case Nil
  then show ?case by simp
next
  case (Cons x xs)
  let ?syms = "symbol (arg_annotations v)"
  from Cons.prems have i: "i < length ?syms" by simp
  then have d: "drop i ?syms = ?syms ! i # drop (Suc i) ?syms"
    by (simp add: Cons_nth_drop_Suc)
  show ?case
  proof (cases "arg_classes v (?syms ! i)")
    case None
    with i have b: "(loop_body frame sig i x v :: ('a, 'l) seg_vars \<times> ('e, 'r) error option) = (v, None)"
      by (simp add: loop_body_def)
    from Cons.prems have "Suc i + length xs \<le> length ?syms" by simp
    from Cons.IH[OF this] b None d show ?thesis by simp
  next
    case (Some c)
    from Some i assms(2)
    have b: "(loop_body frame sig i x v :: ('a, 'l) seg_vars \<times> ('e, 'r) error option)
               = (v, Some OverflowError)"
      by (simp add: loop_body_def)
    from b Some d show ?thesis by simp
  qed
qed

lemma separate_hearbeats_wf:
  assumes "[] \<notin> set signal" and "length (sample a) \<le> length (symbol a)"
  shows "(separate_hearbeats rnd signal a m t :: ('e, 'r) error + ('a list list \<times> 'l list)) =
     (if \<not> fits64 (frame_of rnd m) \<and> qualifying a t \<noteq> [] then Inl OverflowError
      else Inr (map (\<lambda>(pos, s). py_slice (map hd signal) (int64 (pos - frame_of rnd m))
                                           (int64 (pos + frame_of rnd m))) (qualifying a t),
                map (\<lambda>(pos, s). the (t s)) (qualifying a t)))"
proof (cases "fits64 (frame_of rnd m)")
  case True
  then show ?thesis using assms
    by (simp add: separate_hearbeats_def separate_hearbeats_run_def column0_def loop_closed
          qualifying_def)
next
  case False
  then show ?thesis using assms
    by (simp add: separate_hearbeats_def separate_hearbeats_run_def column0_def loop_overflow
          qualifying_def)
qed

lemma separate_hearbeats_closed:
  assumes "[] \<notin> set signal" and "length (sample a) \<le> length (symbol a)"
    and "fits64 (frame_of rnd m)"
  shows "(separate_hearbeats rnd signal a m t :: ('e, 'r) error + ('a list list \<times> 'l list)) =
     Inr (map (\<lambda>(pos, s). py_slice (map hd signal) (int64 (pos - frame_of rnd m))
                                         (int64 (pos + frame_of rnd m))) (qualifying a t),
          map (\<lambda>(pos, s). the (t s)) (qualifying a t))"
  by (simp add: separate_hearbeats_wf[OF assms(1,2)] assms(3))

lemma windows_unwrapped:
  assumes "\<forall>(pos, s) \<in> set qs. fits64 (pos - F) \<and> fits64 (pos + F)"
  shows "map (\<lambda>(pos, s). py_slice sig (int64 (pos - F)) (int64 (pos + F))) qs
         = map (\<lambda>(pos, s). py_slice sig (pos - F) (pos + F)) qs"
  using assms by (auto simp: int64_fits)

lemma qualifying_labels:
  "map Some (map (\<lambda>(pos, s). the (t s)) (qualifying a t)) = map (\<lambda>(pos, s). t s) (qualifying a t)"
  by (auto simp: qualifying_def)

section \<open>Slices\<close>

lemma slice_bound_diff:
  assumes "a \<le> b"
  shows "int (slice_bound n b) \<le> int (slice_bound n a) + (b - a)"
proof (cases "a < 0")
  case a: True
  show ?thesis
  proof (cases "b < 0")
    case True
    with a assms show ?thesis by (auto simp: slice_bound_def)
  next
    case False
    with a assms show ?thesis by (auto simp: slice_bound_def)
  qed
next
  case False
  with assms have "\<not> b < 0" by simp
  with False assms show ?thesis by (auto simp: slice_bound_def)
qed

lemma py_slice_length:
  assumes "0 \<le> f"
  shows "int (length (py_slice xs (p - f) (p + f))) \<le> 2 * f"
proof -
  have "p - f \<le> p + f" using assms by simp
  from slice_bound_diff[OF this, of "length xs"]
  have "int (slice_bound (length xs) (p + f) - slice_bound (length xs) (p - f)) \<le> 2 * f"
    using assms by linarith
  moreover have "length (py_slice xs (p - f) (p + f))
                 \<le> slice_bound (length xs) (p + f) - slice_bound (length xs) (p - f)"
    by (simp add: py_slice_def Let_def)
  ultimately show ?thesis by linarith
qed

lemma py_slice_contiguous: "\<exists>pre post. xs = pre @ py_slice xs a b @ post"
proof -
  let ?lo = "slice_bound (length xs) a"
  let ?k = "slice_bound (length xs) b - ?lo"
  have "xs = take ?lo xs @ take ?k (drop ?lo xs) @ drop ?k (drop ?lo xs)"
    by (simp only: append_take_drop_id)
  then show ?thesis unfolding py_slice_def Let_def by blast
qed

lemma py_slice_from_frame:
  assumes "0 \<le> f" and "f \<le> p"
  shows "py_slice xs (p - f) (p + f) = take (nat (2 * f)) (drop (nat (p - f)) xs)"
proof (cases "nat (p - f) < length xs")
  case True
  have "take (min (nat (p + f)) (length xs) - nat (p - f)) (drop (nat (p - f)) xs)
        = take (nat (p + f) - nat (p - f)) (drop (nat (p - f)) xs)"
    by (auto simp: min_def)
  moreover have "nat (p + f) - nat (p - f) = nat (2 * f)" using assms by linarith
  ultimately show ?thesis using assms True
    by (simp add: py_slice_def slice_bound_def Let_def min_def)
next
  case False
  then show ?thesis using assms by (simp add: py_slice_def slice_bound_def Let_def min_def)
qed

lemma py_slice_wrapped:
  assumes "0 \<le> p" and "p < f"
  shows "py_slice xs (p - f) (p + f)
         = take (nat (p + f) - nat (int (length xs) + p - f))
             (drop (nat (int (length xs) + p - f)) xs)"
proof -
  let ?lo = "nat (int (length xs) + p - f)"
  have lo: "slice_bound (length xs) (p - f) = ?lo"
    using assms by (simp add: slice_bound_def max_def) linarith
  have hi: "slice_bound (length xs) (p + f) = min (nat (p + f)) (length xs)"
    using assms by (simp add: slice_bound_def)
  have "take (min (nat (p + f)) (length xs) - ?lo) (drop ?lo xs)
        = take (nat (p + f) - ?lo) (drop ?lo xs)"
    by (auto simp: min_def)
  then show ?thesis by (simp only: py_slice_def Let_def lo hi)
qed

lemma py_slice_wrapped_empty:
  assumes "0 \<le> p" and "p < f" and "2 * f \<le> int (length xs)"
  shows "py_slice xs (p - f) (p + f) = []"
proof -
  have "nat (p + f) \<le> nat (int (length xs) + p - f)" using assms by linarith
  then show ?thesis using py_slice_wrapped[OF assms(1,2), of xs] by simp
qed

lemma slice_bound_wrapped:
  assumes "b = a + d - 2 ^ 64" and "int n \<le> 2 ^ 64" and "0 \<le> d" and "d < 2 ^ 64"
    and "a < 2 ^ 63" and "- (2 ^ 63) \<le> b"
  shows "int (slice_bound n b) \<le> int (slice_bound n a) + d"
proof (cases "b < 0")
  case b: True
  show ?thesis
  proof (cases "a < 0")
    case True
    with b assms show ?thesis by (auto simp: slice_bound_def)
  next
    case False
    with b assms show ?thesis by (auto simp: slice_bound_def)
  qed
next
  case False
  with assms have "\<not> a < 0" by simp
  with False assms show ?thesis by (auto simp: slice_bound_def)
qed

lemma py_slice_length_int64:
  assumes "0 \<le> F" and "fits64 F" and "int (length xs) \<le> 2 ^ 64"
  shows "int (length (py_slice xs (int64 (p - F)) (int64 (p + F)))) \<le> 2 * F"
proof -
  let ?a = "int64 (p - F)"
  let ?b = "int64 (p + F)"
  from int64_window[OF assms(1,2), of p]
  show ?thesis
  proof
    assume "?b = ?a + 2 * F"
    then have "py_slice xs ?a ?b = py_slice xs ((?a + F) - F) ((?a + F) + F)"
      by (simp add: algebra_simps)
    then show ?thesis using py_slice_length[OF assms(1), of xs "?a + F"] by simp
  next
    assume w: "?b = ?a + 2 * F - 2 ^ 64"
    have "int (slice_bound (length xs) ?b) \<le> int (slice_bound (length xs) ?a) + 2 * F"
      using w assms(3) _ _ int64_range(2)[of "p - F"] int64_range(1)[of "p + F"]
      by (rule slice_bound_wrapped) (use assms(1,2) in \<open>simp_all add: fits64_def\<close>)
    moreover have "length (py_slice xs ?a ?b)
                   \<le> slice_bound (length xs) ?b - slice_bound (length xs) ?a"
      by (simp add: py_slice_def Let_def)
    ultimately show ?thesis using assms(1) by linarith
  qed
qed

section \<open>The segmenter leaves its arguments alone\<close>

lemma loop_body_args:
  "loop_body frame sig i pos v = (v', r) \<Longrightarrow>
     arg_signal v' = arg_signal v \<and> arg_annotations v' = arg_annotations v
     \<and> arg_classes v' = arg_classes v"
  by (auto simp: loop_body_def Let_def split: if_splits option.splits)

lemma for_enumerate_args:
  fixes r :: "('e, 'r) error option"
  shows "for_enumerate (loop_body frame sig) i xs v = (v', r) \<Longrightarrow>
     arg_signal v' = arg_signal v \<and> arg_annotations v' = arg_annotations v
     \<and> arg_classes v' = arg_classes v"
proof (induction xs arbitrary: i v)
  case Nil
  then show ?case by simp
next
  case (Cons x xs)
  obtain v1 and r1 :: "('e, 'r) error option"
    where b: "loop_body frame sig i x v = (v1, r1)"
    by (cases "loop_body frame sig i x v :: _ \<times> ('e, 'r) error option")
  note a = loop_body_args[OF b]
  show ?case
  proof (cases r1)
    case None
    with Cons.prems b have "for_enumerate (loop_body frame sig) (Suc i) xs v1 = (v', r)" by simp
    from Cons.IH[OF this] a show ?thesis by simp
  next
    case (Some e)
    with Cons.prems b have "v' = v1" by simp
    with a show ?thesis by simp
  qed
qed

lemma run_args:
  "separate_hearbeats_run rnd signal a m t = (v, r) \<Longrightarrow>
     arg_signal v = signal \<and> arg_annotations v = a \<and> arg_classes v = t"
  by (auto simp: separate_hearbeats_run_def Let_def split: sum.splits dest!: for_enumerate_args)

section \<open>Removing an annotation\<close>

lemma zip_without:
  assumes "i < length xs" and "i < length ys"
  shows "zip xs ys = zip (take i xs) (take i ys) @ (xs ! i, ys ! i)
                       # zip (drop (Suc i) xs) (drop (Suc i) ys)"
    and "zip (take i xs @ drop (Suc i) xs) (take i ys @ drop (Suc i) ys)
         = zip (take i xs) (take i ys) @ zip (drop (Suc i) xs) (drop (Suc i) ys)"
proof -
  have "zip xs ys = zip (take i xs @ xs ! i # drop (Suc i) xs) (take i ys @ ys ! i # drop (Suc i) ys)"
    using assms by (simp only: id_take_nth_drop[symmetric])
  also have "\<dots> = zip (take i xs) (take i ys) @ (xs ! i, ys ! i)
                       # zip (drop (Suc i) xs) (drop (Suc i) ys)"
    using assms by (subst zip_append) simp_all
  finally show "zip xs ys = zip (take i xs) (take i ys) @ (xs ! i, ys ! i)
                       # zip (drop (Suc i) xs) (drop (Suc i) ys)" .
  show "zip (take i xs @ drop (Suc i) xs) (take i ys @ drop (Suc i) ys)
         = zip (take i xs) (take i ys) @ zip (drop (Suc i) xs) (drop (Suc i) ys)"
    using assms by (subst zip_append) simp_all
qed

lemma qualifying_without:
  assumes "i < length (sample a)" and "i < length (symbol a)" and "t (symbol a ! i) = None"
  shows "qualifying (a\<lparr>sample := take i (sample a) @ drop (Suc i) (sample a),
                        symbol := take i (symbol a) @ drop (Suc i) (symbol a)\<rparr>) t
         = qualifying a t"
  using assms(3) zip_without[OF assms(1,2)] by (simp add: qualifying_def)

section \<open>What the segmenter returns and raises\<close>






section \<open>The trim\<close>

lemma comprehension_Inr: "comprehension f xs = Inr ys \<longleftrightarrow> map f xs = map Inr ys"
proof (induction xs arbitrary: ys)
  case Nil
  then show ?case by auto
next
  case (Cons x xs)
  show ?case
  proof (cases "f x")
    case (Inl e)
    then show ?thesis by (cases ys) auto
  next
    case fx: (Inr y)
    show ?thesis
    proof (cases "comprehension f xs")
      case (Inl e)
      then have "map f xs \<noteq> map Inr zs" for zs using Cons.IH[of zs] by simp
      then show ?thesis using fx Inl by (cases ys) auto
    next
      case (Inr zs)
      then have "map f xs = map Inr zs" using Cons.IH[of zs] by simp
      then show ?thesis using fx Inr by (cases ys) (auto dest: map_inj_on)
    qed
  qed
qed

lemma trim_slice: "py_slice xs 2 (- 1) = take (length xs - 3) (drop 2 xs)"
proof -
  have lo: "slice_bound (length xs) 2 = min 2 (length xs)" by (simp add: slice_bound_def)
  have hi: "slice_bound (length xs) (- 1) = length xs - 1"
    by (simp add: slice_bound_def max_def) linarith
  show ?thesis
  proof (cases "2 \<le> length xs")
    case True
    then have "length xs - 1 - min 2 (length xs) = length xs - 3" by simp
    with True show ?thesis by (simp add: py_slice_def Let_def lo hi)
  next
    case False
    then show ?thesis by (simp add: py_slice_def Let_def lo hi)
  qed
qed

lemma trim_length: "length (py_slice xs 2 (- 1)) = length xs - 3"
  by (simp add: trim_slice)

lemma np_array_one_shape:
  assumes "\<forall>x \<in> set imgs. \<forall>y \<in> set imgs. shape x = shape y"
  shows "(np_array shape imgs :: ('e, 'r) error + 'img list) = Inr imgs"
proof (cases imgs)
  case Nil
  then show ?thesis by (simp add: np_array_def)
next
  case (Cons x xs)
  have "shape y = shape x" if "y \<in> set xs" for y
  proof -
    from that Cons have "y \<in> set imgs" "x \<in> set imgs" by simp_all
    with assms show ?thesis by blast
  qed
  then have "list_all (\<lambda>y. shape y = shape x) xs" by (simp add: list_all_iff)
  then show ?thesis by (simp add: np_array_def Cons)
qed

lemma accumulate_returns:
  assumes "length beats = length lbls"
    and "map render (py_slice beats 2 (- 1)) = map Inr imgs"
    and "\<forall>x \<in> set imgs. \<forall>y \<in> set imgs. shape x = shape y"
  shows "(accumulate shape render st beats lbls
           :: ('img, 'l) process_data \<times> ('e, 'r) error option)
         = (st\<lparr>label_strings := label_strings st @ take (length lbls - 3) (drop 2 lbls),
               image_arrays := image_arrays st @ imgs\<rparr>, None)"
proof -
  from assms(2) have "comprehension render (py_slice beats 2 (- 1)) = Inr imgs"
    by (simp add: comprehension_Inr)
  then show ?thesis using assms(1)
    by (simp add: accumulate_def Let_def trim_slice np_array_one_shape[OF assms(3)])
qed

lemma accumulate_bound_call:
  assumes "length beats = length lbls" and "4 \<le> length beats"
  shows "(accumulate shape (bound_get_image_array plt) st beats lbls
           :: ('img, 'l) process_data \<times> ('e, 'e call_error) error option)
         = (st\<lparr>label_strings := label_strings st @ take (length lbls - 3) (drop 2 lbls)\<rparr>,
            Some (Rendering TypeError))"
proof -
  from assms(2) have "length (py_slice beats 2 (- 1)) \<noteq> 0" by (simp add: trim_length)
  then obtain b bs where "py_slice beats 2 (- 1) = b # bs"
    by (cases "py_slice beats 2 (- 1)") simp_all
  then have "comprehension (bound_get_image_array plt) (py_slice beats 2 (- 1)) = Inl TypeError"
    by (simp add: bound_get_image_array_def call1_def)
  then show ?thesis using assms(1) by (simp add: accumulate_def Let_def trim_slice)
qed

section \<open>The assertion\<close>




section \<open>Worked examples\<close>

lemmas eval_defs =
  separate_hearbeats_def separate_hearbeats_run_def column0_def loop_body_def
  fits64_def int64_def py_slice_def slice_bound_def
  ramp_signal_def ramp_annotations_def supergroups_inc_n_def supergroups_exc_n_def
  example_beats_def example_world_def init_def
  create_img_arrays_def create_img_arrays_with_def process_record_def accumulate_def
  np_array_def bound_get_image_array_def call1_def get_image_array_def qualifying_def
  frame_of_6[OF accurate_binary64]

lemma segmenter_example:
  "(separate_hearbeats (fl binary64) ramp_signal ramp_annotations 6 supergroups_inc_n
      :: (unit, unit) error + (int list list \<times> nat list))
   = Inr ([[], [2, 3, 4, 5], [7, 8, 9]], [4, 4, 4])"
  by (simp add: eval_defs)

lemma ramp_qualifying:
  "qualifying ramp_annotations supergroups_inc_n = [(1, ''N''), (4, ''N''), (9, ''N'')]"
  by (simp add: qualifying_def ramp_annotations_def supergroups_inc_n_def)

lemma ramp_wf:
  "[] \<notin> set ramp_signal"
  "length (sample ramp_annotations) \<le> length (symbol ramp_annotations)"
  "length (sample example_beats) \<le> length (symbol example_beats)"
  by (simp_all add: ramp_signal_def ramp_annotations_def example_beats_def)

section \<open>The claims\<close>

text \<open>
  Claim C1, amended.  For a signal with at least one channel and an annotation object whose
  symbols cover its samples: when the frame fits in 64 bits, \<open>separate_hearbeats\<close>
  returns a window list and a label list of equal length, one entry for each qualifying
  annotation and in the order of those annotations; the window of \<open>(pos, symbol)\<close> is
  the slice \<open>signal[pos - frame : pos + frame]\<close> with the two bounds computed in 64 bits,
  which are \<open>pos - frame\<close> and \<open>pos + frame\<close> themselves when these fit; the label is the
  table's value for the symbol; the other annotations contribute nothing.  When the frame
  does not fit, the first qualifying annotation raises \<open>OverflowError\<close>.  Under an
  accurate rounding the frame fits for every positive mean up to \<open>2.3e19\<close>.
\<close>

theorem segmenter_output:
  assumes "[] \<notin> set signal" and "length (sample a) \<le> length (symbol a)"
    and "F = frame_of rnd m"
  shows "(fits64 F \<longrightarrow>
           (\<exists>ws ls. (separate_hearbeats rnd signal a m t
                        :: ('e, 'r) error + ('a list list \<times> 'l list)) = Inr (ws, ls)
              \<and> length ws = length ls
              \<and> length ws = length (qualifying a t)
              \<and> ws = map (\<lambda>(pos, s). py_slice (map hd signal) (int64 (pos - F))
                                             (int64 (pos + F))) (qualifying a t)
              \<and> map Some ls = map (\<lambda>(pos, s). t s) (qualifying a t)
              \<and> ((\<forall>(pos, s) \<in> set (qualifying a t). fits64 (pos - F) \<and> fits64 (pos + F))
                   \<longrightarrow> ws = map (\<lambda>(pos, s). py_slice (map hd signal) (pos - F) (pos + F))
                                (qualifying a t))))
         \<and> (\<not> fits64 F \<and> qualifying a t \<noteq> [] \<longrightarrow>
               (separate_hearbeats rnd signal a m t
                  :: ('e, 'r) error + ('a list list \<times> 'l list)) = Inl OverflowError)
         \<and> (qualifying a t = [] \<longrightarrow>
               (separate_hearbeats rnd signal a m t
                  :: ('e, 'r) error + ('a list list \<times> 'l list)) = Inr ([], []))
         \<and> (accurate rnd \<and> 0 < m \<and> m \<le> 23000000000000000000 \<longrightarrow> fits64 F)"
proof -
  let ?sep = "separate_hearbeats rnd signal a m t :: ('e, 'r) error + ('a list list \<times> 'l list)"
  note wf = separate_hearbeats_wf[OF assms(1,2), of rnd m t, where ?'e = 'e and ?'r = 'r]
  have 1: "fits64 F \<longrightarrow>
           (\<exists>ws ls. ?sep = Inr (ws, ls)
              \<and> length ws = length ls
              \<and> length ws = length (qualifying a t)
              \<and> ws = map (\<lambda>(pos, s). py_slice (map hd signal) (int64 (pos - F))
                                             (int64 (pos + F))) (qualifying a t)
              \<and> map Some ls = map (\<lambda>(pos, s). t s) (qualifying a t)
              \<and> ((\<forall>(pos, s) \<in> set (qualifying a t). fits64 (pos - F) \<and> fits64 (pos + F))
                   \<longrightarrow> ws = map (\<lambda>(pos, s). py_slice (map hd signal) (pos - F) (pos + F))
                                (qualifying a t)))"
    using qualifying_labels[of t a] windows_unwrapped[of "qualifying a t" F "map hd signal"]
    by (simp add: wf assms(3))
  have 2: "\<not> fits64 F \<and> qualifying a t \<noteq> [] \<longrightarrow> ?sep = Inl OverflowError"
    by (simp add: wf assms(3))
  have 3: "qualifying a t = [] \<longrightarrow> ?sep = Inr ([], [])"
    by (simp add: wf assms(3))
  have 4: "accurate rnd \<and> 0 < m \<and> m \<le> 23000000000000000000 \<longrightarrow> fits64 F"
    using frame_of_fits[of rnd m] by (simp add: assms(3))
  from 1 2 3 4 show ?thesis by blast
qed

theorem segmenter_output_witness:
  "[] \<notin> set ramp_signal
   \<and> length (sample ramp_annotations) \<le> length (symbol ramp_annotations)
   \<and> accurate (fl binary64) \<and> (0::real) < 6 \<and> (6::real) \<le> 23000000000000000000
   \<and> fits64 (frame_of (fl binary64) 6)
   \<and> list_all (\<lambda>(pos, s). fits64 (pos - frame_of (fl binary64) 6)
                           \<and> fits64 (pos + frame_of (fl binary64) 6))
        (qualifying ramp_annotations supergroups_inc_n)
   \<and> (\<exists>ws ls. (separate_hearbeats (fl binary64) ramp_signal ramp_annotations 6
                   supergroups_inc_n
                   :: (unit, unit) error + (int list list \<times> nat list)) = Inr (ws, ls)
          \<and> length ws = length ls
          \<and> length ws = length (qualifying ramp_annotations supergroups_inc_n)
          \<and> ws = map (\<lambda>(pos, s). py_slice (map hd ramp_signal)
                                      (pos - frame_of (fl binary64) 6)
                                      (pos + frame_of (fl binary64) 6))
                     (qualifying ramp_annotations supergroups_inc_n)
          \<and> map Some ls = map (\<lambda>(pos, s). supergroups_inc_n s)
                             (qualifying ramp_annotations supergroups_inc_n))
   \<and> \<not> fits64 (frame_of (fl binary64) 30000000000000000000)
   \<and> qualifying ramp_annotations supergroups_inc_n \<noteq> []
   \<and> (separate_hearbeats (fl binary64) ramp_signal ramp_annotations 30000000000000000000
         supergroups_inc_n
         :: (unit, unit) error + (int list list \<times> nat list)) = Inl OverflowError
   \<and> qualifying ramp_annotations (Map.empty :: string \<rightharpoonup> nat) = []
   \<and> (separate_hearbeats (fl binary64) ramp_signal ramp_annotations 6 Map.empty
         :: (unit, unit) error + (int list list \<times> nat list)) = Inr ([], [])"
proof -
  note acc = accurate_binary64
  have f6: "frame_of (fl binary64) 6 = 2" using acc by (rule frame_of_6)
  have big: "\<not> fits64 (frame_of (fl binary64) 30000000000000000000)"
    using acc by (rule frame_of_large) simp_all
  have fit: "fits64 (frame_of (fl binary64) 6)" by (simp add: f6 fits64_def)
  have nowrap: "\<forall>(pos, s) \<in> set (qualifying ramp_annotations supergroups_inc_n).
                  fits64 (pos - frame_of (fl binary64) 6)
                  \<and> fits64 (pos + frame_of (fl binary64) 6)"
    by (simp add: ramp_qualifying f6 fits64_def)
  have ne: "qualifying ramp_annotations supergroups_inc_n \<noteq> []"
    by (simp add: ramp_qualifying)
  have em: "qualifying ramp_annotations (Map.empty :: string \<rightharpoonup> nat) = []"
    by (simp add: qualifying_def)
  note t6 = segmenter_output[OF ramp_wf(1,2) refl, of "fl binary64" 6 supergroups_inc_n,
      where ?'e = unit and ?'r = unit]
  note t30 = segmenter_output[OF ramp_wf(1,2) refl, of "fl binary64" 30000000000000000000
      supergroups_inc_n, where ?'e = unit and ?'r = unit]
  note t0 = segmenter_output[OF ramp_wf(1,2) refl, of "fl binary64" 6
      "Map.empty :: string \<rightharpoonup> nat", where ?'e = unit and ?'r = unit]
  from t6 fit nowrap
  have a: "\<exists>ws ls. (separate_hearbeats (fl binary64) ramp_signal ramp_annotations 6
                   supergroups_inc_n
                   :: (unit, unit) error + (int list list \<times> nat list)) = Inr (ws, ls)
          \<and> length ws = length ls
          \<and> length ws = length (qualifying ramp_annotations supergroups_inc_n)
          \<and> ws = map (\<lambda>(pos, s). py_slice (map hd ramp_signal)
                                      (pos - frame_of (fl binary64) 6)
                                      (pos + frame_of (fl binary64) 6))
                     (qualifying ramp_annotations supergroups_inc_n)
          \<and> map Some ls = map (\<lambda>(pos, s). supergroups_inc_n s)
                             (qualifying ramp_annotations supergroups_inc_n)"
    by blast
  from t30 big ne
  have b: "(separate_hearbeats (fl binary64) ramp_signal ramp_annotations 30000000000000000000
         supergroups_inc_n
         :: (unit, unit) error + (int list list \<times> nat list)) = Inl OverflowError"
    by blast
  from t0 em
  have c: "(separate_hearbeats (fl binary64) ramp_signal ramp_annotations 6 Map.empty
         :: (unit, unit) error + (int list list \<times> nat list)) = Inr ([], [])"
    by blast
  from nowrap have nowrap': "list_all (\<lambda>(pos, s). fits64 (pos - frame_of (fl binary64) 6)
                           \<and> fits64 (pos + frame_of (fl binary64) 6))
        (qualifying ramp_annotations supergroups_inc_n)"
    by (simp add: list_all_iff)
  from ramp_wf(1,2) acc fit nowrap' a big ne b em c show ?thesis by simp
qed

theorem segmenter_overflow_counterexample:
  "(0::real) < 24000000000000000000
   \<and> fl binary64 24000000000000000000 = 24000000000000000000
   \<and> [] \<notin> set ramp_signal
   \<and> length (sample ramp_annotations) \<le> length (symbol ramp_annotations)
   \<and> (separate_hearbeats (fl binary64) ramp_signal ramp_annotations 24000000000000000000
         supergroups_inc_n
         :: (unit, unit) error + (int list list \<times> nat list)) = Inl OverflowError"
proof -
  have "\<not> fits64 (frame_of (fl binary64) 24000000000000000000)"
    using accurate_binary64 by (rule frame_of_large) simp_all
  then have "(separate_hearbeats (fl binary64) ramp_signal ramp_annotations
                24000000000000000000 supergroups_inc_n
              :: (unit, unit) error + (int list list \<times> nat list)) = Inl OverflowError"
    by (simp add: separate_hearbeats_wf[OF ramp_wf(1,2)] ramp_qualifying)
  moreover have "fl binary64 24000000000000000000 = 24000000000000000000"
  proof -
    have "fl binary64 24000000000000000000
          = of_int (rne (24000000000000000000 / pow2 (64 - int (prec binary64) + 1)))
            * pow2 (64 - int (prec binary64) + 1)"
      by (rule fl_eval) (simp_all add: pow2_def binary64_def)
    then show ?thesis by (simp add: pow2_def binary64_def rne_def Let_def)
  qed
  ultimately show ?thesis using ramp_wf(1,2) by simp
qed

text \<open>
  Claim C2, at a record with four qualifying beats.  The claim wants the pair at index 2
  rendered and appended, image and label.  The source appends the label, then evaluates
  \<open>self.get_image_array(beat)\<close>; \<open>get_image_array\<close> is declared with the single
  parameter \<open>data\<close>, the bound call passes two arguments, and the call raises
  \<open>TypeError\<close>: no image is appended.  With a rendering call that returns, the same
  body appends exactly that pair.
\<close>

theorem create_img_arrays_type_error:
  "(separate_hearbeats (fl binary64) ramp_signal example_beats 6 supergroups_inc_n
      :: (string, string call_error) error + _)
     = Inr ([[0, 1, 2, 3], [2, 3, 4, 5], [4, 5, 6, 7], [6, 7, 8, 9]], [4, 4, 4, 4])
   \<and> create_img_arrays example_world supergroups_inc_n [''100''] init
     = (\<lparr>image_arrays = [], label_strings = [4]\<rparr>, Some (Rendering TypeError))
   \<and> (create_img_arrays_with (\<lambda>beat. Inr beat) example_world supergroups_inc_n [''100''] init
         :: (int list, nat) process_data \<times> (string, unit) error option)
     = (\<lparr>image_arrays = [[4, 5, 6, 7]], label_strings = [4]\<rparr>, None)"
  by (simp add: eval_defs)

text \<open>
  Claim C3, amended.  Let the bounds \<open>pos - frame\<close> and \<open>pos + frame\<close> of a qualifying
  annotation at \<open>pos \<ge> 0\<close> fit in 64 bits.  Its window is never padded.  From
  \<open>pos \<ge> frame\<close> on it is \<open>signal[pos - frame : min(len, pos + frame)]\<close>:
  \<open>2 * frame\<close> samples when \<open>pos + frame \<le> len\<close>, and the \<open>len - (pos - frame)\<close>
  samples up to the end of the signal, fewer than \<open>2 * frame\<close>, when
  \<open>pos \<le> len < pos + frame\<close>.  For \<open>pos < frame\<close> the negative start counts from the
  end of the signal: the window is \<open>signal[max(0, len + pos - frame) : min(len, pos + frame)]\<close>,
  which is empty whenever \<open>len \<ge> 2 * frame\<close>, and not the prefix
  \<open>signal[0 : pos + frame]\<close>.
\<close>

theorem edge_windows:
  assumes "[] \<notin> set signal" and "length (sample a) \<le> length (symbol a)"
    and "accurate rnd" and "0 < m"
    and "j < length (qualifying a t)" and "pos = fst (qualifying a t ! j)" and "0 \<le> pos"
    and "F = frame_of rnd m" and "n = int (length signal)" and "pos + F < 2 ^ 63"
  shows "\<exists>ws ls. (separate_hearbeats rnd signal a m t :: ('e, 'r) error + ('a list list \<times> 'l list))
                    = Inr (ws, ls)
           \<and> (F \<le> pos \<longrightarrow>
                 ws ! j = take (nat (2 * F)) (drop (nat (pos - F)) (map hd signal)))
           \<and> (F \<le> pos \<and> pos + F \<le> n \<longrightarrow> int (length (ws ! j)) = 2 * F)
           \<and> (F \<le> pos \<and> pos \<le> n \<and> n < pos + F \<longrightarrow>
                 int (length (ws ! j)) = n - (pos - F) \<and> int (length (ws ! j)) < 2 * F)
           \<and> (pos < F \<longrightarrow>
                 ws ! j = take (nat (pos + F) - nat (n + pos - F))
                            (drop (nat (n + pos - F)) (map hd signal)))
           \<and> (pos < F \<and> 2 * F \<le> n \<longrightarrow> ws ! j = [])"
proof -
  have F: "0 \<le> F" using assms(3,4,8) by (simp add: frame_of_floor(2))
  have fF: "fits64 F" using F assms(7,10) by (simp add: fits64_def)
  have lo: "int64 (pos - F) = pos - F"
    using F assms(7,10) by (intro int64_fits) (simp add: fits64_def)
  have hi: "int64 (pos + F) = pos + F"
    using F assms(7,10) by (intro int64_fits) (simp add: fits64_def)
  let ?sig = "map hd signal"
  let ?w = "py_slice ?sig (pos - F) (pos + F)"
  obtain p s where ps: "qualifying a t ! j = (p, s)" by (cases "qualifying a t ! j")
  with assms(6) have p: "p = pos" by simp
  have w: "map (\<lambda>(pos, s). py_slice ?sig (int64 (pos - F)) (int64 (pos + F)))
             (qualifying a t) ! j = ?w"
    using assms(5) ps p lo hi by simp
  have len: "int (length ?sig) = n" using assms(9) by simp
  have eq: "?w = take (nat (2 * F)) (drop (nat (pos - F)) ?sig)" if "F \<le> pos"
    using F that by (rule py_slice_from_frame)
  have 1: "F \<le> pos \<longrightarrow> ?w = take (nat (2 * F)) (drop (nat (pos - F)) ?sig)"
    using eq by simp
  have 2: "F \<le> pos \<and> pos + F \<le> n \<longrightarrow> int (length ?w) = 2 * F"
  proof
    assume h: "F \<le> pos \<and> pos + F \<le> n"
    then have "int (length (take (nat (2 * F)) (drop (nat (pos - F)) ?sig))) = 2 * F"
      using F len by (simp add: min_def) linarith
    with eq h show "int (length ?w) = 2 * F" by simp
  qed
  have 3: "F \<le> pos \<and> pos \<le> n \<and> n < pos + F \<longrightarrow>
             int (length ?w) = n - (pos - F) \<and> int (length ?w) < 2 * F"
  proof
    assume h: "F \<le> pos \<and> pos \<le> n \<and> n < pos + F"
    then have "int (length (take (nat (2 * F)) (drop (nat (pos - F)) ?sig))) = n - (pos - F)"
      using F len by (simp add: min_def) linarith
    with eq h show "int (length ?w) = n - (pos - F) \<and> int (length ?w) < 2 * F" by simp
  qed
  have 4: "pos < F \<longrightarrow> ?w = take (nat (pos + F) - nat (n + pos - F))
                                (drop (nat (n + pos - F)) ?sig)"
    using py_slice_wrapped[OF assms(7), of F ?sig] len by simp
  have 5: "pos < F \<and> 2 * F \<le> n \<longrightarrow> ?w = []"
    using py_slice_wrapped_empty[OF assms(7), of F ?sig] len by simp
  have "(separate_hearbeats rnd signal a m t :: ('e, 'r) error + ('a list list \<times> 'l list))
          = Inr (map (\<lambda>(pos, s). py_slice ?sig (int64 (pos - F)) (int64 (pos + F)))
                   (qualifying a t),
                 map (\<lambda>(pos, s). the (t s)) (qualifying a t))"
    using fF by (simp add: separate_hearbeats_closed[OF assms(1,2)] assms(8))
  with w 1 2 3 4 5 show ?thesis by simp
qed

theorem edge_windows_witness:
  "[] \<notin> set ramp_signal
   \<and> length (sample ramp_annotations) \<le> length (symbol ramp_annotations)
   \<and> accurate (fl binary64) \<and> (0::real) < 6
   \<and> 2 = frame_of (fl binary64) 6 \<and> 10 = int (length ramp_signal)
   \<and> map fst (qualifying ramp_annotations supergroups_inc_n) = [1, 4, 9]
   \<and> (9::int) + 2 < 2 ^ 63
   \<and> (\<exists>ws ls. (separate_hearbeats (fl binary64) ramp_signal ramp_annotations 6
                   supergroups_inc_n
                   :: (unit, unit) error + _) = Inr (ws, ls)
          \<and> ws ! 0 = []
          \<and> ws ! 1 = take 4 (drop 2 (map hd ramp_signal)) \<and> int (length (ws ! 1)) = 4
          \<and> ws ! 2 = take 4 (drop 7 (map hd ramp_signal)) \<and> int (length (ws ! 2)) = 3)"
proof -
  note h1 = ramp_wf(1) and h2 = ramp_wf(2)
  note h3 = accurate_binary64
  have h4: "(0::real) < 6" by simp
  note q = ramp_qualifying
  have j0: "0 < length (qualifying ramp_annotations supergroups_inc_n)"
    and j1: "1 < length (qualifying ramp_annotations supergroups_inc_n)"
    and j2: "2 < length (qualifying ramp_annotations supergroups_inc_n)"
    by (simp_all add: q)
  have p0: "1 = fst (qualifying ramp_annotations supergroups_inc_n ! 0)"
    and p1: "4 = fst (qualifying ramp_annotations supergroups_inc_n ! 1)"
    and p2: "9 = fst (qualifying ramp_annotations supergroups_inc_n ! 2)"
    by (simp_all add: q)
  have h8: "2 = frame_of (fl binary64) 6" using frame_of_6[OF h3] by simp
  have h9: "10 = int (length ramp_signal)" by (simp add: ramp_signal_def)
  have b0: "(1::int) + 2 < 2 ^ 63" and b1: "(4::int) + 2 < 2 ^ 63"
    and b2: "(9::int) + 2 < 2 ^ 63" by simp_all
  obtain ws and ls :: "nat list"
    where r: "(separate_hearbeats (fl binary64) ramp_signal ramp_annotations 6
                 supergroups_inc_n :: (unit, unit) error + _) = Inr (ws, ls)"
    using edge_windows[OF h1 h2 h3 h4 j0 p0 _ h8 h9 b0, where ?'e = unit and ?'r = unit]
    by auto
  have "ws ! 0 = []"
    using edge_windows[OF h1 h2 h3 h4 j0 p0 _ h8 h9 b0, where ?'e = unit and ?'r = unit] r
    by auto
  moreover have "ws ! 1 = take 4 (drop 2 (map hd ramp_signal)) \<and> int (length (ws ! 1)) = 4"
    using edge_windows[OF h1 h2 h3 h4 j1 p1 _ h8 h9 b1, where ?'e = unit and ?'r = unit] r
    by auto
  moreover have "ws ! 2 = take 4 (drop 7 (map hd ramp_signal)) \<and> int (length (ws ! 2)) = 3"
    using edge_windows[OF h1 h2 h3 h4 j2 p2 _ h8 h9 b2, where ?'e = unit and ?'r = unit] r
    by auto
  ultimately show ?thesis using h1 h2 h3 h4 h8 h9 q r by simp
qed

theorem start_window_counterexample:
  "(1::int) < frame_of (fl binary64) 6 \<and> 1 \<le> 1 + frame_of (fl binary64) 6
   \<and> qualifying ramp_annotations supergroups_inc_n ! 0 = (1, ''N'')
   \<and> (separate_hearbeats (fl binary64) ramp_signal ramp_annotations 6 supergroups_inc_n
         :: (unit, unit) error + _) = Inr ([[], [2, 3, 4, 5], [7, 8, 9]], [4, 4, 4])
   \<and> py_slice (map hd ramp_signal) 0 (1 + frame_of (fl binary64) 6) = [0, 1, 2]
   \<and> ([] :: int list) \<noteq> py_slice (map hd ramp_signal) 0 (1 + frame_of (fl binary64) 6)"
  by (simp add: eval_defs)

text \<open>
  Claim C4, at a record with four qualifying beats and two calls in a row.  The claim
  wants the two lists of equal length after every call, also after one that raised.  The
  source extends \<open>label_strings\<close> before it renders, the rendering call
  \<open>self.get_image_array(beat)\<close> raises \<open>TypeError\<close> (the method is declared without
  \<open>self\<close>) and nothing is rolled back: after the first call there is one label and no
  image, and after a second call, with the other grouping table, two labels and no image.
\<close>

theorem views_misaligned_after_raise:
  "snd (create_img_arrays example_world supergroups_inc_n [''100''] init)
     = Some (Rendering TypeError)
   \<and> length (image_arrays (fst (create_img_arrays example_world supergroups_inc_n
                                  [''100''] init))) = 0
   \<and> length (label_strings (fst (create_img_arrays example_world supergroups_inc_n
                                   [''100''] init))) = 1
   \<and> length (image_arrays (fst (create_img_arrays example_world supergroups_inc_n
                                  [''100''] init)))
       \<noteq> length (label_strings (fst (create_img_arrays example_world supergroups_inc_n
                                        [''100''] init)))
   \<and> create_img_arrays example_world supergroups_exc_n [''100'']
        (fst (create_img_arrays example_world supergroups_inc_n [''100''] init))
     = (\<lparr>image_arrays = [], label_strings = [4, 1]\<rparr>, Some (Rendering TypeError))"
  by (simp add: eval_defs)

text \<open>
  Claim C5, amended.  For a positive mean rate and any accurate rounding, the frame is
  the floor of the quotient as the floating-point operations compute it, and is not
  negative.  It is the floor \<open>n\<close> of the exact quotient \<open>mean * 0.786 / 2\<close> whenever
  the exact quotient keeps a relative distance of \<open>2^-22\<close> from \<open>n\<close> and from
  \<open>n + 1\<close>, and for a mean up to a million it differs from that floor by one at most.
  For a mean that prints as 454.73 the frame is 178.  Every window of the record is cut
  with that one frame.
\<close>

theorem frame_half_width:
  assumes "accurate rnd" and "0 < m"
  shows "frame_of rnd m = \<lfloor>rnd (rnd (m * rnd (fl binary64 0.786)) / 2)\<rfloor>
         \<and> 0 \<le> frame_of rnd m
         \<and> (m \<le> 2 ^ 100 \<and> of_int n \<le> m * 0.786 / 2 * (1 - 1 / 2 ^ 22)
              \<and> m * 0.786 / 2 * (1 + 1 / 2 ^ 22) < of_int n + 1 \<longrightarrow>
              frame_of rnd m = n \<and> \<lfloor>m * 0.786 / 2\<rfloor> = n)
         \<and> (m \<le> 1000000 \<longrightarrow> \<bar>frame_of rnd m - \<lfloor>m * 0.786 / 2\<rfloor>\<bar> \<le> 1)
         \<and> (\<bar>m - 454.73\<bar> \<le> 0.005 \<longrightarrow> frame_of rnd m = 178)
         \<and> ([] \<notin> set signal \<and> length (sample a) \<le> length (symbol a)
              \<and> fits64 (frame_of rnd m) \<longrightarrow>
              (\<exists>ls. (separate_hearbeats rnd signal a m t
                        :: ('e, 'r) error + ('a list list \<times> 'l list))
                 = Inr (map (\<lambda>(pos, s). py_slice (map hd signal)
                                            (int64 (pos - frame_of rnd m))
                                            (int64 (pos + frame_of rnd m)))
                          (qualifying a t), ls)))"
proof -
  have sf: "scale_factor = 0.786" by (simp add: scale_factor_def)
  have 1: "frame_of rnd m = \<lfloor>rnd (rnd (m * rnd (fl binary64 0.786)) / 2)\<rfloor>"
    using frame_of_floor(1)[OF assms] by (simp add: sf)
  have 2: "0 \<le> frame_of rnd m" using assms by (rule frame_of_floor(2))
  have 3: "m \<le> 2 ^ 100 \<and> of_int n \<le> m * 0.786 / 2 * (1 - 1 / 2 ^ 22)
              \<and> m * 0.786 / 2 * (1 + 1 / 2 ^ 22) < of_int n + 1 \<longrightarrow>
              frame_of rnd m = n \<and> \<lfloor>m * 0.786 / 2\<rfloor> = n"
  proof
    assume h: "m \<le> 2 ^ 100 \<and> of_int n \<le> m * 0.786 / 2 * (1 - 1 / 2 ^ 22)
              \<and> m * 0.786 / 2 * (1 + 1 / 2 ^ 22) < of_int n + 1"
    then have a: "m \<le> pow2 100" by (simp add: pow2_def)
    from h have b: "of_int n \<le> m * scale_factor / 2 * (1 - 1 / 2 ^ 22)"
      and c: "m * scale_factor / 2 * (1 + 1 / 2 ^ 22) < of_int n + 1"
      unfolding sf by simp_all
    from frame_of_between2[OF assms a b c]
    show "frame_of rnd m = n \<and> \<lfloor>m * 0.786 / 2\<rfloor> = n" unfolding sf by simp
  qed
  have 4: "m \<le> 1000000 \<longrightarrow> \<bar>frame_of rnd m - \<lfloor>m * 0.786 / 2\<rfloor>\<bar> \<le> 1"
    using frame_of_near[OF assms] unfolding sf by simp
  have 5: "\<bar>m - 454.73\<bar> \<le> 0.005 \<longrightarrow> frame_of rnd m = 178"
    using frame_of_example[OF assms(1), of m] by simp
  have 6: "[] \<notin> set signal \<and> length (sample a) \<le> length (symbol a)
              \<and> fits64 (frame_of rnd m) \<longrightarrow>
              (\<exists>ls. (separate_hearbeats rnd signal a m t
                        :: ('e, 'r) error + ('a list list \<times> 'l list))
                 = Inr (map (\<lambda>(pos, s). py_slice (map hd signal)
                                            (int64 (pos - frame_of rnd m))
                                            (int64 (pos + frame_of rnd m)))
                          (qualifying a t), ls))"
    by (simp add: separate_hearbeats_closed)
  from 1 2 3 4 5 6 show ?thesis by blast
qed

theorem frame_half_width_witness:
  "accurate (fl binary64) \<and> (0::real) < 116411 / 256
   \<and> (116411 / 256 :: real) \<le> 2 ^ 100 \<and> (116411 / 256 :: real) \<le> 1000000
   \<and> real_of_int 178 \<le> 116411 / 256 * 0.786 / 2 * (1 - 1 / 2 ^ 22)
   \<and> (116411 / 256 * 0.786 / 2 * (1 + 1 / 2 ^ 22) :: real) < real_of_int 178 + 1
   \<and> \<bar>(116411 / 256 :: real) - 454.73\<bar> \<le> 0.005
   \<and> [] \<notin> set ramp_signal
   \<and> length (sample ramp_annotations) \<le> length (symbol ramp_annotations)
   \<and> fits64 (frame_of (fl binary64) (116411 / 256))
   \<and> frame_of (fl binary64) (116411 / 256) = 178
   \<and> \<lfloor>(116411 / 256 :: real) * 0.786 / 2\<rfloor> = 178
   \<and> \<bar>frame_of (fl binary64) (116411 / 256) - \<lfloor>(116411 / 256 :: real) * 0.786 / 2\<rfloor>\<bar> \<le> 1
   \<and> (\<exists>ls. (separate_hearbeats (fl binary64) ramp_signal ramp_annotations (116411 / 256)
                supergroups_inc_n
                :: (unit, unit) error + (int list list \<times> nat list))
          = Inr (map (\<lambda>(pos, s). py_slice (map hd ramp_signal) (int64 (pos - 178))
                                     (int64 (pos + 178)))
                   (qualifying ramp_annotations supergroups_inc_n), ls))"
proof -
  note acc = accurate_binary64
  have m: "(0::real) < 116411 / 256" by simp
  have r: "(116411 / 256 :: real) \<le> 2 ^ 100" "(116411 / 256 :: real) \<le> 1000000" by simp_all
  have lo: "real_of_int 178 \<le> 116411 / 256 * 0.786 / 2 * (1 - 1 / 2 ^ 22)" by simp
  have hi: "(116411 / 256 * 0.786 / 2 * (1 + 1 / 2 ^ 22) :: real) < real_of_int 178 + 1"
    by simp
  have ex: "\<bar>(116411 / 256 :: real) - 454.73\<bar> \<le> 0.005" by simp
  note t = frame_half_width[OF acc m, of 178 ramp_signal ramp_annotations supergroups_inc_n,
      where ?'e = unit and ?'r = unit]
  from t r(1) lo hi have f: "frame_of (fl binary64) (116411 / 256) = 178"
    and x: "\<lfloor>(116411 / 256 :: real) * 0.786 / 2\<rfloor> = 178" by blast+
  from t r(2) have n: "\<bar>frame_of (fl binary64) (116411 / 256)
                        - \<lfloor>(116411 / 256 :: real) * 0.786 / 2\<rfloor>\<bar> \<le> 1" by blast
  have fit: "fits64 (frame_of (fl binary64) (116411 / 256))" by (simp add: f fits64_def)
  from t ramp_wf(1,2) fit
  have "\<exists>ls. (separate_hearbeats (fl binary64) ramp_signal ramp_annotations (116411 / 256)
                supergroups_inc_n
                :: (unit, unit) error + (int list list \<times> nat list))
          = Inr (map (\<lambda>(pos, s). py_slice (map hd ramp_signal)
                                     (int64 (pos - frame_of (fl binary64) (116411 / 256)))
                                     (int64 (pos + frame_of (fl binary64) (116411 / 256))))
                   (qualifying ramp_annotations supergroups_inc_n), ls)"
    by blast
  then have s: "\<exists>ls. (separate_hearbeats (fl binary64) ramp_signal ramp_annotations (116411 / 256)
                supergroups_inc_n
                :: (unit, unit) error + (int list list \<times> nat list))
          = Inr (map (\<lambda>(pos, s). py_slice (map hd ramp_signal) (int64 (pos - 178))
                                     (int64 (pos + 178)))
                   (qualifying ramp_annotations supergroups_inc_n), ls)"
    unfolding f .
  from acc m r lo hi ex ramp_wf(1,2) fit f x n s show ?thesis by blast
qed

theorem frame_tie_counterexample:
  "0 < tie_mean \<and> fl binary64 tie_mean = tie_mean
   \<and> frame_of (fl binary64) tie_mean = 100
   \<and> \<lfloor>tie_mean * 0.786 / 2\<rfloor> = 99
   \<and> frame_of (fl binary64) tie_mean \<noteq> \<lfloor>tie_mean * 0.786 / 2\<rfloor>"
proof -
  have "0 < tie_mean" by (simp add: tie_mean_def)
  moreover have "\<lfloor>tie_mean * 0.786 / 2\<rfloor> = 99"
    using tie_mean_exact by (simp add: scale_factor_def)
  ultimately show ?thesis by (simp add: tie_mean_double frame_of_tie_mean)
qed

text \<open>
  Claim C6.  An annotation whose symbol is not a key of the grouping table leaves the
  variables of the segmenter as they are and raises nothing, and the segmenter does what
  it does on the annotations without that one: it returns the same lists, which it does
  whenever the frame fits in 64 bits, or raises the same exception.
\<close>

theorem absent_symbol_skipped:
  assumes "[] \<notin> set signal" and "length (sample a) \<le> length (symbol a)"
    and "i < length (sample a)" and "t (symbol a ! i) = None"
    and "arg_annotations v = a" and "arg_classes v = t"
  shows "(loop_body frame sig i (sample a ! i) v :: ('a, 'l) seg_vars \<times> ('e, 'r) error option)
           = (v, None)
         \<and> (separate_hearbeats rnd signal
               (a\<lparr>sample := take i (sample a) @ drop (Suc i) (sample a),
                  symbol := take i (symbol a) @ drop (Suc i) (symbol a)\<rparr>) m t
               :: ('e, 'r) error + ('a list list \<times> 'l list))
             = separate_hearbeats rnd signal a m t
         \<and> (fits64 (frame_of rnd m) \<longrightarrow>
              (\<exists>ws ls. (separate_hearbeats rnd signal a m t
                        :: ('e, 'r) error + ('a list list \<times> 'l list)) = Inr (ws, ls)
               \<and> (separate_hearbeats rnd signal
                     (a\<lparr>sample := take i (sample a) @ drop (Suc i) (sample a),
                        symbol := take i (symbol a) @ drop (Suc i) (symbol a)\<rparr>) m t
                     :: ('e, 'r) error + ('a list list \<times> 'l list)) = Inr (ws, ls)))"
proof -
  let ?a' = "a\<lparr>sample := take i (sample a) @ drop (Suc i) (sample a),
                symbol := take i (symbol a) @ drop (Suc i) (symbol a)\<rparr>"
  from assms(2,3) have i: "i < length (symbol a)" by simp
  have len: "length (sample ?a') \<le> length (symbol ?a')" using assms(2,3) by simp
  have q: "qualifying ?a' t = qualifying a t"
    using assms(3) i assms(4) by (rule qualifying_without)
  have "(loop_body frame sig i (sample a ! i) v :: ('a, 'l) seg_vars \<times> ('e, 'r) error option)
           = (v, None)"
    using assms(4,5,6) i by (simp add: loop_body_def)
  then show ?thesis
    by (simp add: separate_hearbeats_wf[OF assms(1,2)]
          separate_hearbeats_wf[OF assms(1) len] q)
qed

theorem absent_symbol_skipped_witness:
  "[] \<notin> set ramp_signal
   \<and> length (sample ramp_annotations) \<le> length (symbol ramp_annotations)
   \<and> 2 < length (sample ramp_annotations)
   \<and> supergroups_inc_n (symbol ramp_annotations ! 2) = None
   \<and> fits64 (frame_of (fl binary64) 6)
   \<and> (loop_body 2 (map hd ramp_signal) 2 (sample ramp_annotations ! 2)
         \<lparr>arg_signal = ramp_signal, arg_annotations = ramp_annotations,
          arg_classes = supergroups_inc_n, signal_images = [[], [2, 3, 4, 5]], labels = [4, 4]\<rparr>
         :: (int, nat) seg_vars \<times> (unit, unit) error option)
       = (\<lparr>arg_signal = ramp_signal, arg_annotations = ramp_annotations,
           arg_classes = supergroups_inc_n, signal_images = [[], [2, 3, 4, 5]], labels = [4, 4]\<rparr>, None)
   \<and> (separate_hearbeats (fl binary64) ramp_signal
         \<lparr>sample = [1, 4, 9], symbol = [''N'', ''N'', ''N'']\<rparr> 6 supergroups_inc_n
         :: (unit, unit) error + (int list list \<times> nat list))
       = separate_hearbeats (fl binary64) ramp_signal ramp_annotations 6 supergroups_inc_n
   \<and> (\<exists>ws ls. (separate_hearbeats (fl binary64) ramp_signal ramp_annotations 6
                   supergroups_inc_n
                   :: (unit, unit) error + (int list list \<times> nat list)) = Inr (ws, ls)
          \<and> (separate_hearbeats (fl binary64) ramp_signal
                \<lparr>sample = [1, 4, 9], symbol = [''N'', ''N'', ''N'']\<rparr> 6 supergroups_inc_n
                :: (unit, unit) error + (int list list \<times> nat list)) = Inr (ws, ls))"
proof -
  have i: "2 < length (sample ramp_annotations)" by (simp add: ramp_annotations_def)
  have n: "supergroups_inc_n (symbol ramp_annotations ! 2) = None"
    by (simp add: ramp_annotations_def supergroups_inc_n_def)
  have fit: "fits64 (frame_of (fl binary64) 6)"
    by (simp add: frame_of_6[OF accurate_binary64] fits64_def)
  have a': "ramp_annotations\<lparr>sample := take 2 (sample ramp_annotations)
                                  @ drop (Suc 2) (sample ramp_annotations),
                              symbol := take 2 (symbol ramp_annotations)
                                  @ drop (Suc 2) (symbol ramp_annotations)\<rparr>
            = \<lparr>sample = [1, 4, 9], symbol = [''N'', ''N'', ''N'']\<rparr>"
    by (simp add: ramp_annotations_def)
  let ?v = "\<lparr>arg_signal = ramp_signal, arg_annotations = ramp_annotations,
          arg_classes = supergroups_inc_n, signal_images = [[], [2, 3, 4, 5 :: int]],
          labels = [4, 4 :: nat]\<rparr>"
  have v: "arg_annotations ?v = ramp_annotations" "arg_classes ?v = supergroups_inc_n"
    by simp_all
  note t = absent_symbol_skipped[where ?'e = unit and ?'r = unit,
      where signal = ramp_signal and a = ramp_annotations and i = 2
      and t = supergroups_inc_n and v = ?v and frame = 2
      and sig = "map hd ramp_signal" and rnd = "fl binary64" and m = 6,
      OF ramp_wf(1,2) i n v, unfolded a']
  from t fit
  have d: "\<exists>ws ls. (separate_hearbeats (fl binary64) ramp_signal ramp_annotations 6
                   supergroups_inc_n
                   :: (unit, unit) error + (int list list \<times> nat list)) = Inr (ws, ls)
          \<and> (separate_hearbeats (fl binary64) ramp_signal
                \<lparr>sample = [1, 4, 9], symbol = [''N'', ''N'', ''N'']\<rparr> 6 supergroups_inc_n
                :: (unit, unit) error + (int list list \<times> nat list)) = Inr (ws, ls)"
    by blast
  from t ramp_wf(1,2) i n fit d show ?thesis by blast
qed



text \<open>
  Claim C9.  A call of the segmenter leaves the signal, the annotations and the grouping
  table as they were, whether it returns or raises, and a second call on the objects as
  the first call left them returns what the first returned.
\<close>

theorem segmenter_pure:
  "let v1 = fst (separate_hearbeats_run rnd signal a m t
                   :: ('a, 'l) seg_vars \<times> ('e, 'r) error option)
   in arg_signal v1 = signal \<and> arg_annotations v1 = a \<and> arg_classes v1 = t
      \<and> (separate_hearbeats rnd (arg_signal v1) (arg_annotations v1) m (arg_classes v1)
            :: ('e, 'r) error + ('a list list \<times> 'l list))
          = separate_hearbeats rnd signal a m t"
proof -
  obtain v r where "(separate_hearbeats_run rnd signal a m t
                      :: ('a, 'l) seg_vars \<times> ('e, 'r) error option) = (v, r)"
    by (cases "separate_hearbeats_run rnd signal a m t
                 :: ('a, 'l) seg_vars \<times> ('e, 'r) error option")
  from run_args[OF this] this show ?thesis by (simp add: Let_def)
qed

theorem segmenter_pure_witness:
  "arg_signal (fst (separate_hearbeats_run (fl binary64) ramp_signal ramp_annotations 6
                      supergroups_inc_n
                    :: (int, nat) seg_vars \<times> (unit, unit) error option)) = ramp_signal
   \<and> arg_annotations (fst (separate_hearbeats_run (fl binary64) ramp_signal ramp_annotations 6
                      supergroups_inc_n
                    :: (int, nat) seg_vars \<times> (unit, unit) error option)) = ramp_annotations
   \<and> arg_classes (fst (separate_hearbeats_run (fl binary64) ramp_signal ramp_annotations 6
                      supergroups_inc_n
                    :: (int, nat) seg_vars \<times> (unit, unit) error option)) = supergroups_inc_n"
  using segmenter_pure[where signal = ramp_signal and a = ramp_annotations
      and rnd = "fl binary64" and m = 6 and t = supergroups_inc_n, where ?'e = unit and ?'r = unit]
  by (simp add: Let_def)

text \<open>
  Claim C10, amended.  For a positive mean rate up to \<open>2.3e19\<close>, under an accurate
  rounding, and for a signal shorter than \<open>2^64\<close> samples, the segmenter returns,
  wherever the annotations are, and every window it returns is a contiguous part of
  channel 0 of the signal, of length at most \<open>2 * frame\<close>.  For a mean so large that
  the frame does not fit in 64 bits the first qualifying annotation raises
  \<open>OverflowError\<close>.
\<close>

theorem windows_bounded:
  assumes "[] \<notin> set signal" and "length (sample a) \<le> length (symbol a)"
    and "accurate rnd" and "0 < m" and "int (length signal) \<le> 2 ^ 64"
  shows "(m \<le> 23000000000000000000 \<longrightarrow> fits64 (frame_of rnd m))
         \<and> (fits64 (frame_of rnd m) \<longrightarrow>
              (\<exists>ws ls. (separate_hearbeats rnd signal a m t
                           :: ('e, 'r) error + ('a list list \<times> 'l list)) = Inr (ws, ls)
                  \<and> (\<forall>w \<in> set ws. int (length w) \<le> 2 * frame_of rnd m
                                     \<and> (\<exists>pre post. map hd signal = pre @ w @ post))))
         \<and> (\<not> fits64 (frame_of rnd m) \<and> qualifying a t \<noteq> [] \<longrightarrow>
              (separate_hearbeats rnd signal a m t
                 :: ('e, 'r) error + ('a list list \<times> 'l list)) = Inl OverflowError)"
proof -
  have f: "0 \<le> frame_of rnd m" using assms(3,4) by (rule frame_of_floor(2))
  have len: "int (length (map hd signal)) \<le> 2 ^ 64" using assms(5) by simp
  have 1: "m \<le> 23000000000000000000 \<longrightarrow> fits64 (frame_of rnd m)"
    using frame_of_fits[OF assms(3,4)] by simp
  have 2: "fits64 (frame_of rnd m) \<longrightarrow>
              (\<exists>ws ls. (separate_hearbeats rnd signal a m t
                           :: ('e, 'r) error + ('a list list \<times> 'l list)) = Inr (ws, ls)
                  \<and> (\<forall>w \<in> set ws. int (length w) \<le> 2 * frame_of rnd m
                                     \<and> (\<exists>pre post. map hd signal = pre @ w @ post)))"
  proof
    assume fit: "fits64 (frame_of rnd m)"
    show "\<exists>ws ls. (separate_hearbeats rnd signal a m t
                           :: ('e, 'r) error + ('a list list \<times> 'l list)) = Inr (ws, ls)
                  \<and> (\<forall>w \<in> set ws. int (length w) \<le> 2 * frame_of rnd m
                                     \<and> (\<exists>pre post. map hd signal = pre @ w @ post))"
      using py_slice_length_int64[OF f fit len] py_slice_contiguous
      by (auto simp: separate_hearbeats_closed[OF assms(1,2) fit])
  qed
  have 3: "\<not> fits64 (frame_of rnd m) \<and> qualifying a t \<noteq> [] \<longrightarrow>
              (separate_hearbeats rnd signal a m t
                 :: ('e, 'r) error + ('a list list \<times> 'l list)) = Inl OverflowError"
    by (simp add: separate_hearbeats_wf[OF assms(1,2)])
  from 1 2 3 show ?thesis by blast
qed

theorem windows_bounded_witness:
  "[] \<notin> set ramp_signal
   \<and> length (sample ramp_annotations) \<le> length (symbol ramp_annotations)
   \<and> accurate (fl binary64) \<and> (0::real) < 6 \<and> int (length ramp_signal) \<le> 2 ^ 64
   \<and> (6::real) \<le> 23000000000000000000
   \<and> fits64 (frame_of (fl binary64) 6)
   \<and> (\<exists>ws ls. (separate_hearbeats (fl binary64) ramp_signal ramp_annotations 6
                   supergroups_inc_n
                   :: (unit, unit) error + (int list list \<times> nat list)) = Inr (ws, ls)
          \<and> list_all (\<lambda>w. int (length w) \<le> 2 * frame_of (fl binary64) 6
                             \<and> (\<exists>pre post. map hd ramp_signal = pre @ w @ post)) ws)
   \<and> (0::real) < 40000000000000000000
   \<and> \<not> fits64 (frame_of (fl binary64) 40000000000000000000)
   \<and> qualifying ramp_annotations supergroups_inc_n \<noteq> []
   \<and> (separate_hearbeats (fl binary64) ramp_signal ramp_annotations 40000000000000000000
         supergroups_inc_n
         :: (unit, unit) error + (int list list \<times> nat list)) = Inl OverflowError"
proof -
  note acc = accurate_binary64
  have m: "(0::real) < 6" "(0::real) < 40000000000000000000" by simp_all
  have len: "int (length ramp_signal) \<le> 2 ^ 64" by (simp add: ramp_signal_def)
  have le: "(6::real) \<le> 23000000000000000000" by simp
  have big: "\<not> fits64 (frame_of (fl binary64) 40000000000000000000)"
    using acc by (rule frame_of_large) simp_all
  have ne: "qualifying ramp_annotations supergroups_inc_n \<noteq> []"
    by (simp add: ramp_qualifying)
  note t6 = windows_bounded[OF ramp_wf(1,2) acc m(1) len, of supergroups_inc_n,
      where ?'e = unit and ?'r = unit]
  note t40 = windows_bounded[OF ramp_wf(1,2) acc m(2) len, of supergroups_inc_n,
      where ?'e = unit and ?'r = unit]
  from t6 le have fit: "fits64 (frame_of (fl binary64) 6)" by blast
  from t6 fit
  have a: "\<exists>ws ls. (separate_hearbeats (fl binary64) ramp_signal ramp_annotations 6
                   supergroups_inc_n
                   :: (unit, unit) error + (int list list \<times> nat list)) = Inr (ws, ls)
          \<and> list_all (\<lambda>w. int (length w) \<le> 2 * frame_of (fl binary64) 6
                             \<and> (\<exists>pre post. map hd ramp_signal = pre @ w @ post)) ws"
    unfolding list_all_iff by blast
  from t40 big ne
  have b: "(separate_hearbeats (fl binary64) ramp_signal ramp_annotations 40000000000000000000
         supergroups_inc_n
         :: (unit, unit) error + (int list list \<times> nat list)) = Inl OverflowError"
    by blast
  from ramp_wf(1,2) acc m len le fit a big ne b show ?thesis by blast
qed

theorem segmenter_raises_counterexample:
  "(0::real) < 25000000000000000000
   \<and> [] \<notin> set ramp_signal
   \<and> length (sample example_beats) \<le> length (symbol example_beats)
   \<and> list_all (\<lambda>pos. 0 \<le> pos \<and> pos < int (length ramp_signal)) (sample example_beats)
   \<and> (separate_hearbeats (fl binary64) ramp_signal example_beats 25000000000000000000
         supergroups_inc_n
         :: (unit, unit) error + (int list list \<times> nat list)) = Inl OverflowError"
proof -
  have "\<not> fits64 (frame_of (fl binary64) 25000000000000000000)"
    using accurate_binary64 by (rule frame_of_large) simp_all
  moreover have "qualifying example_beats supergroups_inc_n \<noteq> []"
    by (simp add: qualifying_def example_beats_def supergroups_inc_n_def)
  ultimately have "(separate_hearbeats (fl binary64) ramp_signal example_beats
                25000000000000000000 supergroups_inc_n
              :: (unit, unit) error + (int list list \<times> nat list)) = Inl OverflowError"
    by (simp add: separate_hearbeats_wf[OF ramp_wf(1,3)])
  moreover have "list_all (\<lambda>pos. 0 \<le> pos \<and> pos < int (length ramp_signal))
                   (sample example_beats)"
    by (simp add: example_beats_def ramp_signal_def)
  ultimately show ?thesis using ramp_wf(1,3) by simp
qed

end
